theory Spec2Isabelle
  imports Complex_Main "HOL-Library.Word"
begin

unbundle bit_operations_syntax

section \<open>Grids (cv::Mat)\<close>

text \<open>
  A single-channel \<open>cv::Mat\<close> is modelled as the list of its rows.  \<open>rows\<close> and \<open>cols\<close> are
  the two dimension fields, \<open>mat_at\<close> is \<open>Mat::at<T>(y, x)\<close> used as a read, \<open>mat_put\<close> is
  the same accessor used as the target of an assignment, and \<open>mat_zeros\<close> is
  \<open>cv::Mat::zeros(size, type)\<close>.  A \<open>float\<close> (CV_32F) pixel is idealised as a \<open>real\<close>:
  rounding, infinities and NaN are not modelled.  A CV_8U pixel is an \<open>8 word\<close>.
\<close>

type_synonym 'a mat = "'a list list"

type_synonym uchar = "8 word"

definition rows :: "'a mat \<Rightarrow> nat" where
  "rows m = length m"

definition cols :: "'a mat \<Rightarrow> nat" where
  "cols m = (case m of [] \<Rightarrow> 0 | r # _ \<Rightarrow> length r)"

definition mat_at :: "'a mat \<Rightarrow> nat \<Rightarrow> nat \<Rightarrow> 'a" where
  "mat_at m y x = m ! y ! x"

definition mat_put :: "'a mat \<Rightarrow> nat \<Rightarrow> nat \<Rightarrow> 'a \<Rightarrow> 'a mat" where
  "mat_put m y x v = m[y := (m ! y)[x := v]]"

definition mat_zeros :: "nat \<Rightarrow> nat \<Rightarrow> ('a::zero) mat" where
  "mat_zeros r c = replicate r (replicate c 0)"

text \<open>A grid is rectangular of size \<open>r\<close> by \<open>c\<close>: every \<open>cv::Mat\<close> is.\<close>

definition rect :: "nat \<Rightarrow> nat \<Rightarrow> 'a mat \<Rightarrow> bool" where
  "rect r c m = (length m = r \<and> list_all (\<lambda>row. length row = c) m)"

text \<open>
  The nested pixel loops \<open>for (y ...) for (x ...) body\<close>, over the row indices \<open>ys\<close> and the
  column indices \<open>xs\<close> in this order, threading the loop's state.
\<close>

definition for_yx :: "nat list \<Rightarrow> nat list \<Rightarrow> (nat \<Rightarrow> nat \<Rightarrow> 's \<Rightarrow> 's) \<Rightarrow> 's \<Rightarrow> 's" where
  "for_yx ys xs body s = fold (\<lambda>y. fold (\<lambda>x. body y x) xs) ys s"

section \<open>The OpenCV primitives\<close>

text \<open>
  \<open>cv::GaussianBlur\<close> and \<open>cv::Sobel\<close> are library functions, not code of this program:
  they are parameters of the model.  \<open>GaussianBlur cv src ksize sigma\<close> blurs one plane
  with a square kernel of side \<open>ksize\<close>; \<open>Sobel cv src dx dy\<close> is the call
  \<open>cv::Sobel(src, dst, CV_32F, dx, dy, 3)\<close> on one plane.
\<close>

record opencv =
  GaussianBlur :: "real mat \<Rightarrow> int \<Rightarrow> real \<Rightarrow> real mat"
  Sobel :: "real mat \<Rightarrow> nat \<Rightarrow> nat \<Rightarrow> real mat"

text \<open>
  \<open>std::atan2\<close> on the reals, with the value 0 at the origin (signed zeros, infinities and
  NaN are not modelled).
\<close>

definition atan2 :: "real \<Rightarrow> real \<Rightarrow> real" where
  "atan2 y x =
    (if 0 < x then arctan (y / x)
     else if x < 0 \<and> 0 \<le> y then arctan (y / x) + pi
     else if x < 0 then arctan (y / x) - pi
     else if 0 < y then pi / 2
     else if y < 0 then - pi / 2
     else 0)"

section \<open>Smoothing\<close>

text \<open>\<open>static_cast<int>\<close> of a \<open>double\<close> truncates towards zero (the overflow of \<open>int\<close> is
  not modelled).\<close>

definition static_cast_int :: "real \<Rightarrow> int" where
  "static_cast_int v = (if 0 \<le> v then \<lfloor>v\<rfloor> else \<lceil>v\<rceil>)"

definition calculateGaussianKernelSize :: "real \<Rightarrow> int" where
  "calculateGaussianKernelSize sigma = max 3 (static_cast_int (6 * sigma + 1) OR 1)"

text \<open>
  An image is the list of its channel planes: one plane for a grayscale image, three for
  a colour image.  \<open>applyGaussianBlur\<close> blurs every plane; the conversion to CV_32F is the
  identity on reals.
\<close>

type_synonym image = "real mat list"

definition applyGaussianBlur :: "opencv \<Rightarrow> image \<Rightarrow> real \<Rightarrow> image" where
  "applyGaussianBlur cv source sigma =
    (let kernelSize = calculateGaussianKernelSize sigma
     in map (\<lambda>plane. GaussianBlur cv plane kernelSize sigma) source)"

section \<open>Structure tensor\<close>



definition computeCoefficientsGray ::
  "real mat \<Rightarrow> real mat \<Rightarrow> real mat \<times> real mat \<times> real mat" where
  "computeCoefficientsGray gradientX gradientY =
    for_yx [0 ..< rows gradientX] [0 ..< cols gradientX]
      (\<lambda>y x (gxx, gyy, gxy).
         let dRdx = mat_at gradientX y x;
             dRdy = mat_at gradientY y x
         in (mat_put gxx y x (dRdx * dRdx), mat_put gyy y x (dRdy * dRdy),
             mat_put gxy y x (dRdx * dRdy)))
      (mat_zeros (rows gradientX) (cols gradientX), mat_zeros (rows gradientX) (cols gradientX),
       mat_zeros (rows gradientX) (cols gradientX))"

text \<open>The colour variant accumulates over the three channels \<open>i = 0, 1, 2\<close> in place;
  \<open>gradientX\<close> and \<open>gradientY\<close> are the \<open>std::vector\<close>s of the per-channel gradients.\<close>

definition computeCoefficientsColor ::
  "real mat list \<Rightarrow> real mat list \<Rightarrow> real mat \<times> real mat \<times> real mat" where
  "computeCoefficientsColor gradientX gradientY =
    for_yx [0 ..< rows (gradientX ! 0)] [0 ..< cols (gradientX ! 0)]
      (\<lambda>y x. fold (\<lambda>i (gxx, gyy, gxy).
         (mat_put gxx y x (mat_at gxx y x + (mat_at (gradientX ! i) y x) ^ 2),
          mat_put gyy y x (mat_at gyy y x + (mat_at (gradientY ! i) y x) ^ 2),
          mat_put gxy y x (mat_at gxy y x + mat_at (gradientX ! i) y x * mat_at (gradientY ! i) y x)))
         [0 ..< 3])
      (mat_zeros (rows (gradientX ! 0)) (cols (gradientX ! 0)),
       mat_zeros (rows (gradientX ! 0)) (cols (gradientX ! 0)),
       mat_zeros (rows (gradientX ! 0)) (cols (gradientX ! 0)))"

section \<open>Magnitude and direction\<close>

text \<open>The angle that both \<open>calculateGradientMagnitude\<close> and \<open>calculateGradientDirection\<close>
  compute at a pixel, by the same expression.\<close>

definition theta_of :: "real \<Rightarrow> real \<Rightarrow> real \<Rightarrow> real" where
  "theta_of gxx gyy gxy =
    (let numerator = 2 * gxy;
         denominator = gxx - gyy
     in if denominator < 0 then pi / 4 else 0.5 * atan2 numerator denominator)"

text \<open>The argument of \<open>std::sqrt\<close> in \<open>calculateGradientMagnitude\<close>, over the reals:
  \<open>cos\<close> and \<open>sin\<close> are the real functions, where the code has their \<open>float\<close> values
  (at the fallback angle \<open>cos (2 * theta)\<close> is 0 here and about \<open>-4.4e-8\<close> in the code).\<close>

definition radicand :: "real \<Rightarrow> real \<Rightarrow> real \<Rightarrow> real" where
  "radicand gxx gyy gxy =
    (let theta = theta_of gxx gyy gxy;
         cos2theta = cos (2 * theta);
         sin2theta = sin (2 * theta)
     in 0.5 * ((gxx + gyy) + (gxx - gyy) * cos2theta + 2 * gxy * sin2theta))"

definition calculateGradientMagnitude :: "real mat \<Rightarrow> real mat \<Rightarrow> real mat \<Rightarrow> real mat" where
  "calculateGradientMagnitude gxx gyy gxy =
    for_yx [0 ..< rows gxx] [0 ..< cols gxx]
      (\<lambda>y x magnitude.
         mat_put magnitude y x (sqrt (radicand (mat_at gxx y x) (mat_at gyy y x) (mat_at gxy y x))))
      (mat_zeros (rows gxx) (cols gxx))"

definition calculateGradientDirection :: "real mat \<Rightarrow> real mat \<Rightarrow> real mat \<Rightarrow> real mat" where
  "calculateGradientDirection gxx gyy gxy =
    for_yx [0 ..< rows gxx] [0 ..< cols gxx]
      (\<lambda>y x direction.
         mat_put direction y x (theta_of (mat_at gxx y x) (mat_at gyy y x) (mat_at gxy y x)))
      (mat_zeros (rows gxx) (cols gxx))"

section \<open>Non-maximum suppression\<close>

record GradientResult =
  magnitude :: "real mat"
  direction :: "real mat"

text \<open>The body of the loop of \<open>EdgeDetector::applySuppression\<close> at the pixel \<open>(y, x)\<close>:
  the value assigned to \<open>suppressed.at<float>(y, x)\<close>.\<close>

definition suppressed_value :: "GradientResult \<Rightarrow> nat \<Rightarrow> nat \<Rightarrow> real" where
  "suppressed_value gradients y x =
    (let angle = mat_at (direction gradients) y x;
         angleDeg0 = angle * 180 / pi;
         angleDeg = (if angleDeg0 < 0 then angleDeg0 + 180 else angleDeg0);
         mag = mat_at (magnitude gradients);
         (q, r) =
           (if (0 \<le> angleDeg \<and> angleDeg < 22.5) \<or> (157.5 \<le> angleDeg \<and> angleDeg \<le> 180)
              then (mag y (x + 1), mag y (x - 1))
            else if 22.5 \<le> angleDeg \<and> angleDeg < 67.5
              then (mag (y + 1) (x - 1), mag (y - 1) (x + 1))
            else if 67.5 \<le> angleDeg \<and> angleDeg < 112.5
              then (mag (y + 1) x, mag (y - 1) x)
            else if 112.5 \<le> angleDeg \<and> angleDeg < 157.5
              then (mag (y - 1) (x - 1), mag (y + 1) (x + 1))
            else (255, 255))
     in if mag y x \<ge> q \<and> mag y x \<ge> r then mag y x else 0)"

text \<open>\<open>EdgeDetector::applySuppression\<close>.  The loops run over \<open>1 \<le> y < rows - 1\<close> and
  \<open>1 \<le> x < cols - 1\<close>; on naturals \<open>rows - 1\<close> is \<open>0\<close> for an empty grid, where the C++
  \<open>int\<close> is \<open>-1\<close>, and the loop is empty in both.\<close>

definition applySuppression :: "GradientResult \<Rightarrow> real mat" where
  "applySuppression gradients =
    for_yx [1 ..< rows (magnitude gradients) - 1] [1 ..< cols (magnitude gradients) - 1]
      (\<lambda>y x suppressed. mat_put suppressed y x (suppressed_value gradients y x))
      (mat_zeros (rows (magnitude gradients)) (cols (magnitude gradients)))"

text \<open>
  The same rule in the words of the specification: the direction in degrees, negatives
  shifted by 180, falls into one of four sectors, and each sector selects two neighbours.
\<close>

datatype sector = Horizontal | AntiDiagonal | Vertical | MainDiagonal

definition spec_degrees :: "real \<Rightarrow> real" where
  "spec_degrees angle = (if angle * 180 / pi < 0 then angle * 180 / pi + 180 else angle * 180 / pi)"

definition spec_sector :: "real \<Rightarrow> sector option" where
  "spec_sector d =
    (if (0 \<le> d \<and> d < 22.5) \<or> (157.5 \<le> d \<and> d \<le> 180) then Some Horizontal
     else if 22.5 \<le> d \<and> d < 67.5 then Some AntiDiagonal
     else if 67.5 \<le> d \<and> d < 112.5 then Some Vertical
     else if 112.5 \<le> d \<and> d < 157.5 then Some MainDiagonal
     else None)"

fun spec_neighbours :: "sector \<Rightarrow> nat \<Rightarrow> nat \<Rightarrow> (nat \<times> nat) \<times> (nat \<times> nat)" where
  "spec_neighbours Horizontal y x = ((y, x + 1), (y, x - 1))"
| "spec_neighbours AntiDiagonal y x = ((y + 1, x - 1), (y - 1, x + 1))"
| "spec_neighbours Vertical y x = ((y + 1, x), (y - 1, x))"
| "spec_neighbours MainDiagonal y x = ((y - 1, x - 1), (y + 1, x + 1))"

text \<open>A pixel keeps its magnitude when it is at least both selected neighbours (a tie
  survives) and becomes 0 otherwise.\<close>

definition spec_keep :: "real mat \<Rightarrow> sector \<Rightarrow> nat \<Rightarrow> nat \<Rightarrow> real" where
  "spec_keep mag sec y x =
    (case spec_neighbours sec y x of
       ((y1, x1), (y2, x2)) \<Rightarrow>
         if mat_at mag y x \<ge> mat_at mag y1 x1 \<and> mat_at mag y x \<ge> mat_at mag y2 x2
         then mat_at mag y x else 0)"

definition spec_suppressed :: "GradientResult \<Rightarrow> nat \<Rightarrow> nat \<Rightarrow> real option" where
  "spec_suppressed g y x =
    map_option (\<lambda>sec. spec_keep (magnitude g) sec y x)
      (spec_sector (spec_degrees (mat_at (direction g) y x)))"

section \<open>Hysteresis thresholding\<close>

text \<open>
  \<open>cv::minMaxLoc(suppressed, nullptr, &maxVal)\<close>: the largest pixel of the grid.  OpenCV
  gives no result on an empty grid; the model returns 0 there.
\<close>

definition maxVal_of :: "real mat \<Rightarrow> real" where
  "maxVal_of m = (case concat m of [] \<Rightarrow> 0 | v # vs \<Rightarrow> fold max vs v)"

text \<open>The classification loop: the state is the pair of the grids \<open>strong\<close> and \<open>weak\<close>.\<close>

definition classify_pixel ::
  "real mat \<Rightarrow> real \<Rightarrow> real \<Rightarrow> nat \<Rightarrow> nat \<Rightarrow> uchar mat \<times> uchar mat \<Rightarrow> uchar mat \<times> uchar mat" where
  "classify_pixel suppressed highThr lowThr y x = (\<lambda>(strong, weak).
     let val = mat_at suppressed y x
     in if val \<ge> highThr then (mat_put strong y x 255, weak)
        else if val \<ge> lowThr then (strong, mat_put weak y x 255)
        else (strong, weak))"

definition classify :: "real mat \<Rightarrow> real \<Rightarrow> real \<Rightarrow> uchar mat \<times> uchar mat" where
  "classify suppressed highThr lowThr =
     for_yx [0 ..< rows suppressed] [0 ..< cols suppressed]
       (classify_pixel suppressed highThr lowThr)
       (mat_zeros (rows suppressed) (cols suppressed), mat_zeros (rows suppressed) (cols suppressed))"

definition dx :: "int list" where
  "dx = [-1, 0, 1, -1, 1, -1, 0, 1]"

definition dy :: "int list" where
  "dy = [-1, -1, -1, 0, 0, 1, 1, 1]"

text \<open>
  The innermost loop \<open>for (int i = 0; i < 8; i++)\<close> over the neighbour offsets, with its
  \<open>break\<close>: the first neighbour found accepted ends the loop, after \<open>(y, x)\<close> has been
  accepted in place and \<open>changed\<close> has been set.
\<close>

fun promote :: "nat \<Rightarrow> nat \<Rightarrow> nat list \<Rightarrow> uchar mat \<times> bool \<Rightarrow> uchar mat \<times> bool" where
  "promote y x [] (edges, changed) = (edges, changed)"
| "promote y x (i # is) (edges, changed) =
     (if mat_at edges (nat (int y + dy ! i)) (nat (int x + dx ! i)) = 255
      then (mat_put edges y x 255, True)
      else promote y x is (edges, changed))"

definition scan_pixel :: "uchar mat \<Rightarrow> nat \<Rightarrow> nat \<Rightarrow> uchar mat \<times> bool \<Rightarrow> uchar mat \<times> bool" where
  "scan_pixel weak y x = (\<lambda>(edges, changed).
     if mat_at weak y x = 255 \<and> mat_at edges y x = 0
     then promote y x [0 ..< 8] (edges, changed)
     else (edges, changed))"

text \<open>One pass of the \<open>do\<close> body: \<open>changed = false\<close>, then the scan of the interior pixels,
  which reads the grid \<open>edges\<close> it is writing.\<close>

definition scan_pass :: "uchar mat \<Rightarrow> uchar mat \<Rightarrow> uchar mat \<times> bool" where
  "scan_pass weak edges =
     for_yx [1 ..< rows edges - 1] [1 ..< cols edges - 1] (scan_pixel weak) (edges, False)"

text \<open>The loop \<open>do { ... } while (changed)\<close>.  \<open>None\<close> is: the loop does not return.\<close>

partial_function (option) grow :: "uchar mat \<Rightarrow> uchar mat \<Rightarrow> uchar mat option" where
  "grow weak edges =
     (case scan_pass weak edges of
        (edges', changed) \<Rightarrow> if changed then grow weak edges' else Some edges')"

text \<open>\<open>EdgeDetector::applyThresholding\<close>.\<close>

definition applyThresholding :: "real mat \<Rightarrow> real \<Rightarrow> real \<Rightarrow> uchar mat option" where
  "applyThresholding suppressed lowThreshold highThreshold =
    (let maxVal = maxVal_of suppressed;
         highThr = highThreshold * maxVal;
         lowThr = lowThreshold * maxVal;
         (strong, weak) = classify suppressed highThr lowThr;
         edges = strong
     in grow weak edges)"

section \<open>The pipeline\<close>

definition computeGrayGradients :: "opencv \<Rightarrow> real mat \<Rightarrow> GradientResult" where
  "computeGrayGradients cv img =
    (let gradientX = Sobel cv img 1 0;
         gradientY = Sobel cv img 0 1;
         (gxx, gyy, gxy) = computeCoefficientsGray gradientX gradientY
     in \<lparr>magnitude = calculateGradientMagnitude gxx gyy gxy,
         direction = calculateGradientDirection gxx gyy gxy\<rparr>)"

definition computeColorGradients :: "opencv \<Rightarrow> image \<Rightarrow> GradientResult" where
  "computeColorGradients cv channels =
    (let gradientX = map (\<lambda>i. Sobel cv (channels ! i) 1 0) [0 ..< 3];
         gradientY = map (\<lambda>i. Sobel cv (channels ! i) 0 1) [0 ..< 3];
         (gxx, gyy, gxy) = computeCoefficientsColor gradientX gradientY
     in \<lparr>magnitude = calculateGradientMagnitude gxx gyy gxy,
         direction = calculateGradientDirection gxx gyy gxy\<rparr>)"

text \<open>
  The failures of the pipeline.  The source has no check of its own: \<open>cv::GaussianBlur\<close>
  rejects an empty image, \<open>computeColorGradients\<close> indexes \<open>channels[0..2]\<close> of the split
  image, and \<open>computeGrayGradients\<close> reads its gradients as single-channel \<open>float\<close> grids.
  An image that these accesses do not fit is an error of the model.
\<close>

datatype error = EmptySource | ChannelMismatch

definition computeGradients :: "opencv \<Rightarrow> image \<Rightarrow> bool \<Rightarrow> error + GradientResult" where
  "computeGradients cv img isColor =
    (if isColor
     then (if length img < 3 then Inl ChannelMismatch else Inr (computeColorGradients cv img))
     else (if length img \<noteq> 1 then Inl ChannelMismatch
           else Inr (computeGrayGradients cv (img ! 0))))"

record GradientParams =
  source :: image
  sigma :: real
  lowThreshold :: real
  highThreshold :: real
  isColor :: bool

text \<open>\<open>EdgeDetector::process\<close>.  \<open>None\<close> is: the hysteresis loop does not return.\<close>

definition process :: "opencv \<Rightarrow> GradientParams \<Rightarrow> (error + uchar mat) option" where
  "process cv params =
    (if source params = [] \<or> rows (source params ! 0) = 0 \<or> cols (source params ! 0) = 0
     then Some (Inl EmptySource)
     else
       let blurred = applyGaussianBlur cv (source params) (sigma params)
       in case computeGradients cv blurred (isColor params) of
            Inl e \<Rightarrow> Some (Inl e)
          | Inr gradients \<Rightarrow>
              let suppressed = applySuppression gradients
              in map_option Inr
                   (applyThresholding suppressed (lowThreshold params) (highThreshold params)))"

text \<open>
  A reference instance of the two primitives, for concrete runs of the pipeline: the
  3 by 3 Sobel operator with the border rule BORDER_REFLECT_101 (OpenCV's default), and the
  blur that returns its input.
\<close>

definition reflect101 :: "nat \<Rightarrow> int \<Rightarrow> nat" where
  "reflect101 n i = (if n \<le> 1 then 0 else if i < 0 then nat (- i) else if int n \<le> i then nat (2 * int n - 2 - i) else nat i)"

definition sobel3 :: "real mat \<Rightarrow> nat \<Rightarrow> nat \<Rightarrow> real mat" where
  "sobel3 src xorder yorder =
    (let deriv = [-1, 0, 1]; smooth = [1, 2, 1];
         kx = (if xorder = 1 then deriv else smooth);
         ky = (if yorder = 1 then deriv else smooth)
     in map (\<lambda>y. map (\<lambda>x.
          (\<Sum>j \<leftarrow> [0 ..< 3]. \<Sum>i \<leftarrow> [0 ..< 3].
             ky ! j * kx ! i *
             mat_at src (reflect101 (rows src) (int y + int j - 1))
                        (reflect101 (cols src) (int x + int i - 1))))
          [0 ..< cols src]) [0 ..< rows src])"

definition reference_cv :: opencv where
  "reference_cv = \<lparr>GaussianBlur = (\<lambda>src ksize sigma. src), Sobel = sobel3\<rparr>"

section \<open>The accepted set and 8-adjacency\<close>

text \<open>Pixels are addressed as \<open>(y, x)\<close>.  Two pixels are 8-adjacent when they differ and
  their rows and their columns differ by at most one.\<close>

definition adj8 :: "nat \<times> nat \<Rightarrow> nat \<times> nat \<Rightarrow> bool" where
  "adj8 p q = (p \<noteq> q \<and> \<bar>int (fst p) - int (fst q)\<bar> \<le> 1 \<and> \<bar>int (snd p) - int (snd q)\<bar> \<le> 1)"

text \<open>The accepted-edge set of a mask of \<open>r\<close> by \<open>c\<close> pixels: the pixels holding 255.\<close>

definition accepted :: "nat \<Rightarrow> nat \<Rightarrow> uchar mat \<Rightarrow> (nat \<times> nat) set" where
  "accepted r c edges = {(y, x). y < r \<and> x < c \<and> mat_at edges y x = 255}"

text \<open>The interior of a grid: the pixels that the scan of \<open>scan_pass\<close> visits.\<close>

definition interior :: "nat \<Rightarrow> nat \<Rightarrow> (nat \<times> nat) set" where
  "interior r c = {(y, x). 1 \<le> y \<and> y + 1 < r \<and> 1 \<le> x \<and> x + 1 < c}"

text \<open>The strong and the weak pixels of a suppressed grid, as the specification classifies
  them against the global maximum \<open>M\<close>: strong if \<open>value \<ge> high * M\<close>, weak if
  \<open>low * M \<le> value < high * M\<close>.\<close>

definition strong_set :: "real mat \<Rightarrow> real \<Rightarrow> (nat \<times> nat) set" where
  "strong_set s high =
     {(y, x). y < rows s \<and> x < cols s \<and> mat_at s y x \<ge> high * maxVal_of s}"

definition weak_set :: "real mat \<Rightarrow> real \<Rightarrow> real \<Rightarrow> (nat \<times> nat) set" where
  "weak_set s low high =
     {(y, x). y < rows s \<and> x < cols s \<and>
              low * maxVal_of s \<le> mat_at s y x \<and> mat_at s y x < high * maxVal_of s}"

text \<open>
  The specification's order-free formulation: the set grown from the seeds \<open>S\<close> by
  8-adjacency through the pixels of \<open>W\<close>.  Any breadth-first, depth-first or flood-fill
  search from \<open>S\<close> through \<open>W\<close> computes this set.
\<close>

inductive_set reach :: "(nat \<times> nat) set \<Rightarrow> (nat \<times> nat) set \<Rightarrow> (nat \<times> nat) set"
  for S W :: "(nat \<times> nat) set" where
  seed: "p \<in> S \<Longrightarrow> p \<in> reach S W"
| grow_step: "q \<in> reach S W \<Longrightarrow> adj8 q p \<Longrightarrow> p \<in> W \<Longrightarrow> p \<in> reach S W"

text \<open>The test of the innermost loop: one of the eight neighbours of \<open>(y, x)\<close> is accepted.\<close>

definition accepted_neighbour :: "uchar mat \<Rightarrow> nat \<Rightarrow> nat \<Rightarrow> bool" where
  "accepted_neighbour edges y x =
     (\<exists>i\<in>set [0 ..< 8]. mat_at edges (nat (int y + dy ! i)) (nat (int x + dx ! i)) = 255)"

text \<open>The number of pixels of an \<open>r\<close> by \<open>c\<close> mask that are not accepted: the measure that
  every pass with \<open>changed = true\<close> decreases.\<close>

definition rejected_count :: "nat \<Rightarrow> nat \<Rightarrow> uchar mat \<Rightarrow> nat" where
  "rejected_count r c edges = card (({..<r} \<times> {..<c}) - accepted r c edges)"

section \<open>Facts about grids\<close>

lemma rect_rows: "rect r c m \<Longrightarrow> rows m = r"
  by (simp add: rect_def rows_def)

lemma rect_cols: "rect r c m \<Longrightarrow> 0 < r \<Longrightarrow> cols m = c"
  by (cases m) (auto simp: rect_def cols_def)

lemma rect_row_length: "rect r c m \<Longrightarrow> y < r \<Longrightarrow> length (m ! y) = c"
  by (auto simp: rect_def list_all_length)

lemma rect_zeros: "rect r c (mat_zeros r c)"
  by (simp add: rect_def mat_zeros_def list_all_length)

lemma at_zeros: "y < r \<Longrightarrow> x < c \<Longrightarrow> mat_at (mat_zeros r c) y x = 0"
  by (simp add: mat_at_def mat_zeros_def)

lemma rect_put: "rect r c m \<Longrightarrow> rect r c (mat_put m y x v)"
proof -
  assume m: "rect r c m"
  have "length ((mat_put m y x v) ! n) = c" if "n < r" for n
  proof (cases "n = y")
    case True
    with m that show ?thesis
      by (simp add: rect_def mat_put_def list_all_length)
  next
    case False
    with m that show ?thesis
      by (simp add: rect_def mat_put_def list_all_length)
  qed
  with m show ?thesis
    by (simp add: rect_def mat_put_def list_all_length)
qed

lemma at_put_same: "rect r c m \<Longrightarrow> y < r \<Longrightarrow> x < c \<Longrightarrow> mat_at (mat_put m y x v) y x = v"
  by (auto simp: rect_def mat_put_def mat_at_def list_all_length)

lemma at_put_other: "(y', x') \<noteq> (y, x) \<Longrightarrow> mat_at (mat_put m y x v) y' x' = mat_at m y' x'"
proof (cases "y' = y \<and> y < length m")
  case True
  moreover assume "(y', x') \<noteq> (y, x)"
  ultimately show ?thesis
    by (simp add: mat_put_def mat_at_def)
next
  case False
  then show ?thesis
    by (cases "y < length m") (auto simp: mat_put_def mat_at_def list_update_beyond)
qed

lemma at_put:
  "rect r c m \<Longrightarrow> y < r \<Longrightarrow> x < c \<Longrightarrow>
   mat_at (mat_put m y x v) y' x' = (if y' = y \<and> x' = x then v else mat_at m y' x')"
  using at_put_same [of r c m y x v] at_put_other [of y' x' y x m v] by auto

lemma for_yx_Nil [simp]: "for_yx [] xs body s = s"
  by (simp add: for_yx_def)

lemma for_yx_Cons: "for_yx (y # ys) xs body s = for_yx ys xs body (fold (body y) xs s)"
  by (simp add: for_yx_def)

text \<open>An invariant of the loop body is an invariant of the nested loops.\<close>

lemma fold_invariant:
  "P s \<Longrightarrow> (\<And>x s. x \<in> set xs \<Longrightarrow> P s \<Longrightarrow> P (f x s)) \<Longrightarrow> P (fold f xs s)"
  by (induction xs arbitrary: s) auto

lemma for_yx_invariant:
  assumes "P s" and "\<And>y x s. y \<in> set ys \<Longrightarrow> x \<in> set xs \<Longrightarrow> P s \<Longrightarrow> P (body y x s)"
  shows "P (for_yx ys xs body s)"
  unfolding for_yx_def
proof (rule fold_invariant [where P = P])
  show "P s" by (rule assms(1))
next
  fix y t
  assume "y \<in> set ys" and "P t"
  then show "P (fold (body y) xs t)"
    by (intro fold_invariant [where P = P]) (auto intro: assms(2))
qed

lemma for_yx_product:
  "for_yx ys xs body s = fold (\<lambda>p. body (fst p) (snd p)) (List.product ys xs) s"
proof (induction ys arbitrary: s)
  case Nil
  show ?case by simp
next
  case (Cons y ys)
  have "fold (\<lambda>p. body (fst p) (snd p)) (map (Pair y) xs) s = fold (body y) xs s"
    by (simp add: fold_map comp_def)
  with Cons show ?case
    by (simp add: for_yx_Cons)
qed

lemma fold_cond_put:
  assumes "rect r c s" "distinct ps" "\<forall>p\<in>set ps. fst p < r \<and> snd p < c"
  shows "rect r c (fold (\<lambda>p s. if b p then mat_put s (fst p) (snd p) (f p) else s) ps s) \<and>
         (\<forall>y x. mat_at (fold (\<lambda>p s. if b p then mat_put s (fst p) (snd p) (f p) else s) ps s) y x =
            (if (y, x) \<in> set ps \<and> b (y, x) then f (y, x) else mat_at s y x))"
  using assms
proof (induction ps arbitrary: s)
  case Nil
  then show ?case by simp
next
  case (Cons p ps)
  let ?s = "if b p then mat_put s (fst p) (snd p) (f p) else s"
  have r: "rect r c ?s"
    using Cons.prems(1) by (simp add: rect_put)
  have p: "fst p < r" "snd p < c" "p \<notin> set ps" "distinct ps" "\<forall>p\<in>set ps. fst p < r \<and> snd p < c"
    using Cons.prems by auto
  note ih = Cons.IH [OF r p(4) p(5)]
  have "mat_at ?s y x = (if (y, x) = p \<and> b p then f p else mat_at s y x)" for y x
    using at_put [OF Cons.prems(1) p(1) p(2), of "f p" y x] by (cases p) auto
  with ih p(3) show ?case
    by auto
qed

lemma for_yx_cond_put:
  assumes "rect r c s" "distinct ys" "\<forall>y\<in>set ys. y < r" "distinct xs" "\<forall>x\<in>set xs. x < c"
  shows "rect r c (for_yx ys xs (\<lambda>y x s. if b y x then mat_put s y x (f y x) else s) s) \<and>
         (\<forall>y' x'. mat_at (for_yx ys xs (\<lambda>y x s. if b y x then mat_put s y x (f y x) else s) s) y' x' =
            (if y' \<in> set ys \<and> x' \<in> set xs \<and> b y' x' then f y' x' else mat_at s y' x'))"
proof -
  have d: "distinct (List.product ys xs)"
    using assms(2,4) by (rule distinct_product)
  have i: "\<forall>p\<in>set (List.product ys xs). fst p < r \<and> snd p < c"
    using assms(3,5) by auto
  show ?thesis
    using fold_cond_put [OF assms(1) d i, of "\<lambda>p. b (fst p) (snd p)" "\<lambda>p. f (fst p) (snd p)"]
    by (simp add: for_yx_product)
qed

lemma for_yx_put:
  assumes "rect r c s" "distinct ys" "\<forall>y\<in>set ys. y < r" "distinct xs" "\<forall>x\<in>set xs. x < c"
  shows "rect r c (for_yx ys xs (\<lambda>y x s. mat_put s y x (f y x)) s) \<and>
         (\<forall>y' x'. mat_at (for_yx ys xs (\<lambda>y x s. mat_put s y x (f y x)) s) y' x' =
            (if y' \<in> set ys \<and> x' \<in> set xs then f y' x' else mat_at s y' x'))"
  using for_yx_cond_put [OF assms, of "\<lambda>y x. True" f] by simp

lemma applySuppression_at:
  assumes "y < rows (magnitude g)" "x < cols (magnitude g)"
  shows "mat_at (applySuppression g) y x =
         (if 1 \<le> y \<and> y + 1 < rows (magnitude g) \<and> 1 \<le> x \<and> x + 1 < cols (magnitude g)
          then suppressed_value g y x else 0)"
proof -
  let ?r = "rows (magnitude g)" and ?c = "cols (magnitude g)"
  have ys: "distinct [1 ..< ?r - 1]" "\<forall>y\<in>set [1 ..< ?r - 1]. y < ?r"
    and xs: "distinct [1 ..< ?c - 1]" "\<forall>x\<in>set [1 ..< ?c - 1]. x < ?c"
    by auto
  note fill = for_yx_put [OF rect_zeros ys xs, of "suppressed_value g"]
  have "mat_at (applySuppression g) y x =
        (if y \<in> set [1 ..< ?r - 1] \<and> x \<in> set [1 ..< ?c - 1] then suppressed_value g y x
         else mat_at (mat_zeros ?r ?c) y x)"
    unfolding applySuppression_def using conjunct2 [OF fill] by blast
  with assms show ?thesis
    by (auto simp: at_zeros)
qed

lemma rect_applySuppression:
  "rect (rows (magnitude g)) (cols (magnitude g)) (applySuppression g)"
  unfolding applySuppression_def
  by (rule for_yx_invariant) (auto intro: rect_zeros rect_put)

lemma suppressed_value_spec:
  assumes "- pi \<le> mat_at (direction g) y x" "mat_at (direction g) y x \<le> pi"
  shows "spec_suppressed g y x = Some (suppressed_value g y x)"
proof -
  let ?a = "mat_at (direction g) y x"
  have "- 180 \<le> ?a * 180 / pi" "?a * 180 / pi \<le> 180"
    using assms by (simp_all add: field_simps)
  then have d: "0 \<le> spec_degrees ?a" "spec_degrees ?a \<le> 180"
    by (auto simp: spec_degrees_def)
  show ?thesis
    using d unfolding suppressed_value_def spec_suppressed_def spec_sector_def spec_keep_def
    by (auto simp: Let_def spec_degrees_def)
qed

section \<open>Facts about the classification loop\<close>

lemma fold_pair_split:
  assumes "\<And>x a b. body x (a, b) = (f x a, g x b)"
  shows "fold body xs (a, b) = (fold f xs a, fold g xs b)"
  by (induction xs arbitrary: a b) (simp_all add: assms)

lemma classify_split:
  "classify s hi lo =
    (for_yx [0 ..< rows s] [0 ..< cols s]
       (\<lambda>y x m. if mat_at s y x \<ge> hi then mat_put m y x 255 else m) (mat_zeros (rows s) (cols s)),
     for_yx [0 ..< rows s] [0 ..< cols s]
       (\<lambda>y x m. if \<not> mat_at s y x \<ge> hi \<and> mat_at s y x \<ge> lo then mat_put m y x 255 else m)
       (mat_zeros (rows s) (cols s)))"
  unfolding classify_def for_yx_product
  by (rule fold_pair_split) (simp add: classify_pixel_def Let_def)

lemma classify_strong:
  "rect (rows s) (cols s) (fst (classify s hi lo))"
  "y < rows s \<Longrightarrow> x < cols s \<Longrightarrow>
   mat_at (fst (classify s hi lo)) y x = (if mat_at s y x \<ge> hi then 255 else 0)"
proof -
  have ys: "distinct [0 ..< rows s]" "\<forall>y\<in>set [0 ..< rows s]. y < rows s"
    and xs: "distinct [0 ..< cols s]" "\<forall>x\<in>set [0 ..< cols s]. x < cols s"
    by auto
  note fill = for_yx_cond_put [OF rect_zeros ys xs, of "\<lambda>y x. mat_at s y x \<ge> hi" "\<lambda>y x. 255::uchar"]
  show "rect (rows s) (cols s) (fst (classify s hi lo))"
    using conjunct1 [OF fill] by (simp add: classify_split)
  show "mat_at (fst (classify s hi lo)) y x = (if mat_at s y x \<ge> hi then 255 else 0)"
    if "y < rows s" "x < cols s"
    using conjunct2 [OF fill] that by (simp add: classify_split at_zeros)
qed

lemma classify_weak:
  "rect (rows s) (cols s) (snd (classify s hi lo))"
  "y < rows s \<Longrightarrow> x < cols s \<Longrightarrow>
   mat_at (snd (classify s hi lo)) y x = (if \<not> mat_at s y x \<ge> hi \<and> mat_at s y x \<ge> lo then 255 else 0)"
proof -
  have ys: "distinct [0 ..< rows s]" "\<forall>y\<in>set [0 ..< rows s]. y < rows s"
    and xs: "distinct [0 ..< cols s]" "\<forall>x\<in>set [0 ..< cols s]. x < cols s"
    by auto
  note fill = for_yx_cond_put [OF rect_zeros ys xs,
      of "\<lambda>y x. \<not> mat_at s y x \<ge> hi \<and> mat_at s y x \<ge> lo" "\<lambda>y x. 255::uchar"]
  show "rect (rows s) (cols s) (snd (classify s hi lo))"
    using conjunct1 [OF fill] by (simp add: classify_split)
  show "mat_at (snd (classify s hi lo)) y x =
        (if \<not> mat_at s y x \<ge> hi \<and> mat_at s y x \<ge> lo then 255 else 0)"
    if "y < rows s" "x < cols s"
    using conjunct2 [OF fill] that by (simp add: classify_split at_zeros)
qed

section \<open>Facts about the hysteresis pass and loop\<close>

lemma promote_eq:
  "promote y x js (e, ch) =
    (if \<exists>i\<in>set js. mat_at e (nat (int y + dy ! i)) (nat (int x + dx ! i)) = 255
     then (mat_put e y x 255, True) else (e, ch))"
  by (induction js) auto

lemma scan_pixel_eq:
  "scan_pixel weak y x (e, ch) =
    (if mat_at weak y x = 255 \<and> mat_at e y x = 0 \<and> accepted_neighbour e y x
     then (mat_put e y x 255, True) else (e, ch))"
  by (simp add: scan_pixel_def promote_eq accepted_neighbour_def)

lemma upt_8: "[0 ..< 8] = [0, 1, 2, 3, 4, 5, 6, 7 :: nat]"
  by (simp add: upt_rec)

lemma neighbour_offsets:
  assumes "1 \<le> y" "1 \<le> x"
  shows "map (\<lambda>i. (nat (int y + dy ! i), nat (int x + dx ! i))) [0 ..< 8] =
         [(y - 1, x - 1), (y - 1, x), (y - 1, x + 1), (y, x - 1), (y, x + 1),
          (y + 1, x - 1), (y + 1, x), (y + 1, x + 1)]"
proof -
  have "nat (int y + 1) = y + 1" "nat (int x + 1) = x + 1"
       "nat (int y - 1) = y - 1" "nat (int x - 1) = x - 1"
    using assms by auto
  then show ?thesis
    unfolding upt_8 by (simp add: dx_def dy_def)
qed

lemma accepted_neighbour_adj8:
  assumes "1 \<le> y" "1 \<le> x"
  shows "accepted_neighbour e y x \<longleftrightarrow> (\<exists>q. adj8 (y, x) q \<and> mat_at e (fst q) (snd q) = 255)"
proof -
  let ?nb = "[(y - 1, x - 1), (y - 1, x), (y - 1, x + 1), (y, x - 1), (y, x + 1),
              (y + 1, x - 1), (y + 1, x), (y + 1, x + 1)]"
  have "accepted_neighbour e y x \<longleftrightarrow>
        (\<exists>q\<in>set (map (\<lambda>i. (nat (int y + dy ! i), nat (int x + dx ! i))) [0 ..< 8]).
           mat_at e (fst q) (snd q) = 255)"
    unfolding accepted_neighbour_def set_map by simp
  then have 1: "accepted_neighbour e y x \<longleftrightarrow> (\<exists>q\<in>set ?nb. mat_at e (fst q) (snd q) = 255)"
    unfolding neighbour_offsets [OF assms] .
  have 2: "adj8 (y, x) q \<longleftrightarrow> q \<in> set ?nb" for q
  proof
    assume q: "adj8 (y, x) q"
    then have ys: "fst q = y - 1 \<or> fst q = y \<or> fst q = y + 1"
      and xs: "snd q = x - 1 \<or> snd q = x \<or> snd q = x + 1"
      and ne: "\<not> (fst q = y \<and> snd q = x)"
      by (auto simp: adj8_def)
    obtain y' x' where [simp]: "q = (y', x')"
      by (cases q)
    from ys xs ne show "q \<in> set ?nb"
      by simp blast
  next
    assume "q \<in> set ?nb"
    then consider "q = (y - 1, x - 1)" | "q = (y - 1, x)" | "q = (y - 1, x + 1)"
      | "q = (y, x - 1)" | "q = (y, x + 1)" | "q = (y + 1, x - 1)" | "q = (y + 1, x)"
      | "q = (y + 1, x + 1)"
      by auto
    then show "adj8 (y, x) q"
      using assms by cases (simp_all add: adj8_def)
  qed
  show ?thesis
    unfolding 1 using 2 by blast
qed

lemma interior_in_grid: "(y, x) \<in> interior r c \<Longrightarrow> y < r \<and> x < c \<and> 1 \<le> y \<and> 1 \<le> x"
  by (auto simp: interior_def)

lemma adj8_sym: "adj8 p q \<Longrightarrow> adj8 q p"
  by (auto simp: adj8_def)

lemma adj8_interior_in_grid:
  "adj8 (y, x) q \<Longrightarrow> (y, x) \<in> interior r c \<Longrightarrow> fst q < r \<and> snd q < c"
  by (auto simp: adj8_def interior_def)

lemma accepted_put:
  assumes "rect r c e" "y < r" "x < c"
  shows "accepted r c (mat_put e y x 255) = insert (y, x) (accepted r c e)"
  using assms by (auto simp: accepted_def at_put)

lemma rejected_count_put:
  assumes "rect r c e" "y < r" "x < c" "mat_at e y x = 0"
  shows "rejected_count r c (mat_put e y x 255) < rejected_count r c e"
proof -
  let ?G = "{..<r} \<times> {..<c}"
  have m: "(y, x) \<in> ?G - accepted r c e"
    using assms by (auto simp: accepted_def)
  have eq: "?G - accepted r c (mat_put e y x 255) = (?G - accepted r c e) - {(y, x)}"
    using accepted_put [OF assms(1,2,3)] by auto
  have "finite (?G - accepted r c e)"
    by simp
  then have "card ((?G - accepted r c e) - {(y, x)}) < card (?G - accepted r c e)"
    using m by (rule card_Diff1_less)
  then show ?thesis
    unfolding rejected_count_def eq .
qed

lemma scan_pass_indices:
  assumes "rect r c e" "y \<in> set [1 ..< rows e - 1]" "x \<in> set [1 ..< cols e - 1]"
  shows "(y, x) \<in> interior r c"
proof -
  have "0 < r"
    using assms(1,2) by (auto simp: rect_rows)
  with assms show ?thesis
    by (auto simp: interior_def rect_rows rect_cols)
qed

lemma interior_scan_pass_indices:
  assumes "rect r c e" "(y, x) \<in> interior r c"
  shows "(y, x) \<in> set (List.product [1 ..< rows e - 1] [1 ..< cols e - 1])"
proof -
  have "0 < r"
    using assms(2) by (auto simp: interior_def)
  with assms show ?thesis
    by (auto simp: interior_def rect_rows rect_cols)
qed

text \<open>The proof rule of one pass: a property that holds before the pass and that every
  promotion preserves holds after the pass.\<close>

lemma scan_pass_invariant:
  assumes "rect r c e" and "P (e, False)"
    and step: "\<And>y x e' ch. (y, x) \<in> interior r c \<Longrightarrow> rect r c e' \<Longrightarrow> P (e', ch) \<Longrightarrow>
           mat_at weak y x = 255 \<Longrightarrow> mat_at e' y x = 0 \<Longrightarrow> accepted_neighbour e' y x \<Longrightarrow>
           P (mat_put e' y x 255, True)"
  shows "P (scan_pass weak e) \<and> rect r c (fst (scan_pass weak e))"
  unfolding scan_pass_def
proof (rule for_yx_invariant [where P = "\<lambda>s. P s \<and> rect r c (fst s)"])
  show "P (e, False) \<and> rect r c (fst (e, False))"
    using assms(1,2) by simp
next
  fix y x s
  assume y: "y \<in> set [1 ..< rows e - 1]" and x: "x \<in> set [1 ..< cols e - 1]"
    and s: "P s \<and> rect r c (fst s)"
  obtain e' ch where [simp]: "s = (e', ch)"
    by (cases s)
  have i: "(y, x) \<in> interior r c"
    using assms(1) y x by (rule scan_pass_indices)
  show "P (scan_pixel weak y x s) \<and> rect r c (fst (scan_pixel weak y x s))"
    using s step [OF i, of e' ch] by (auto simp: scan_pixel_eq rect_put)
qed

lemma rect_scan_pass: "rect r c e \<Longrightarrow> rect r c (fst (scan_pass weak e))"
  using scan_pass_invariant [of r c e "\<lambda>_. True" weak] by simp

lemma scan_pass_keeps:
  assumes "rect r c e" "mat_at e y x = 255"
  shows "mat_at (fst (scan_pass weak e)) y x = 255"
proof -
  have "mat_at (fst (scan_pass weak e)) y x = 255 \<and> rect r c (fst (scan_pass weak e))"
  proof (rule scan_pass_invariant [where P = "\<lambda>s. mat_at (fst s) y x = 255", OF assms(1)])
    show "mat_at (fst (e, False)) y x = 255"
      using assms(2) by simp
  next
    fix y' x' e' ch
    assume "(y', x') \<in> interior r c" "rect r c e'" "mat_at (fst (e', ch)) y x = 255"
    then show "mat_at (fst (mat_put e' y' x' 255, True)) y x = 255"
      using interior_in_grid [of y' x' r c] by (simp add: at_put)
  qed
  then show ?thesis ..
qed

lemma scan_pass_measure:
  assumes "rect r c e"
  shows "if snd (scan_pass weak e)
         then rejected_count r c (fst (scan_pass weak e)) < rejected_count r c e
         else fst (scan_pass weak e) = e"
proof -
  let ?P = "\<lambda>s. rejected_count r c (fst s) \<le> rejected_count r c e \<and>
                 (if snd s then rejected_count r c (fst s) < rejected_count r c e else fst s = e)"
  have "?P (scan_pass weak e) \<and> rect r c (fst (scan_pass weak e))"
  proof (rule scan_pass_invariant [where P = ?P, OF assms])
    show "?P (e, False)"
      by simp
  next
    fix y x e' ch
    assume i: "(y, x) \<in> interior r c" and r: "rect r c e'" and p: "?P (e', ch)"
      and z: "mat_at e' y x = 0"
    have "rejected_count r c (mat_put e' y x 255) < rejected_count r c e'"
      using r interior_in_grid [OF i] z by (intro rejected_count_put) auto
    with p show "?P (mat_put e' y x 255, True)"
      by simp
  qed
  then show ?thesis
    by (simp split: if_splits)
qed

lemma scan_pass_binary:
  assumes "rect r c e" "\<forall>y<r. \<forall>x<c. mat_at e y x = 0 \<or> mat_at e y x = 255"
  shows "\<forall>y<r. \<forall>x<c. mat_at (fst (scan_pass weak e)) y x = 0 \<or> mat_at (fst (scan_pass weak e)) y x = 255"
proof -
  let ?P = "\<lambda>s. \<forall>y<r. \<forall>x<c. mat_at (fst s) y x = 0 \<or> mat_at (fst s) y x = 255"
  have "?P (scan_pass weak e) \<and> rect r c (fst (scan_pass weak e))"
  proof (rule scan_pass_invariant [where P = ?P, OF assms(1)])
    show "?P (e, False)"
      using assms(2) by simp
  next
    fix y x e' ch
    assume "(y, x) \<in> interior r c" "rect r c e'" "?P (e', ch)"
    then show "?P (mat_put e' y x 255, True)"
      using interior_in_grid [of y x r c] by (simp add: at_put)
  qed
  then show ?thesis ..
qed

lemma scan_pass_sound:
  assumes "rect r c e" "accepted r c e \<subseteq> R"
    and closed: "\<And>p q. q \<in> R \<Longrightarrow> adj8 q p \<Longrightarrow> p \<in> interior r c \<Longrightarrow>
                  mat_at weak (fst p) (snd p) = 255 \<Longrightarrow> p \<in> R"
  shows "accepted r c (fst (scan_pass weak e)) \<subseteq> R"
proof -
  let ?P = "\<lambda>s. accepted r c (fst s) \<subseteq> R"
  have "?P (scan_pass weak e) \<and> rect r c (fst (scan_pass weak e))"
  proof (rule scan_pass_invariant [where P = ?P, OF assms(1)])
    show "?P (e, False)"
      using assms(2) by simp
  next
    fix y x e' ch
    assume i: "(y, x) \<in> interior r c" and r: "rect r c e'" and p: "?P (e', ch)"
      and w: "mat_at weak y x = 255" and n: "accepted_neighbour e' y x"
    from n obtain q where q: "adj8 (y, x) q" "mat_at e' (fst q) (snd q) = 255"
      using interior_in_grid [OF i] by (auto simp: accepted_neighbour_adj8)
    have "q \<in> accepted r c e'"
      using q adj8_interior_in_grid [OF q(1) i] by (cases q) (simp add: accepted_def)
    with p have "q \<in> R"
      by auto
    then have "(y, x) \<in> R"
      using adj8_sym [OF q(1)] i w by (intro closed [of q "(y, x)"]) auto
    with p show "?P (mat_put e' y x 255, True)"
      using accepted_put [OF r, of y x] interior_in_grid [OF i] by auto
  qed
  then show ?thesis ..
qed

lemma fold_scan_changed:
  "snd (fold (\<lambda>p. scan_pixel weak (fst p) (snd p)) ps (e, True)) = True"
  by (induction ps arbitrary: e) (simp_all add: scan_pixel_eq)

lemma fold_scan_unchanged:
  assumes "snd (fold (\<lambda>p. scan_pixel weak (fst p) (snd p)) ps (e, False)) = False" "p \<in> set ps"
  shows "\<not> (mat_at weak (fst p) (snd p) = 255 \<and> mat_at e (fst p) (snd p) = 0 \<and>
            accepted_neighbour e (fst p) (snd p))"
  using assms
proof (induction ps)
  case Nil
  then show ?case by simp
next
  case (Cons a ps)
  let ?pr = "\<lambda>p. mat_at weak (fst p) (snd p) = 255 \<and> mat_at e (fst p) (snd p) = 0 \<and>
            accepted_neighbour e (fst p) (snd p)"
  have a: "\<not> ?pr a"
  proof
    assume "?pr a"
    then have "scan_pixel weak (fst a) (snd a) (e, False) = (mat_put e (fst a) (snd a) 255, True)"
      by (simp add: scan_pixel_eq)
    with Cons.prems(1) show False
      by (simp add: fold_scan_changed)
  qed
  then have "scan_pixel weak (fst a) (snd a) (e, False) = (e, False)"
    by (auto simp: scan_pixel_eq)
  with Cons a show ?case
    by auto
qed

lemma scan_pass_fixed:
  assumes "rect r c e" "snd (scan_pass weak e) = False" "(y, x) \<in> interior r c"
  shows "\<not> (mat_at weak y x = 255 \<and> mat_at e y x = 0 \<and> accepted_neighbour e y x)"
  using fold_scan_unchanged [of weak "List.product [1 ..< rows e - 1] [1 ..< cols e - 1]" e "(y, x)"]
    assms(2) interior_scan_pass_indices [OF assms(1,3)]
  by (simp add: scan_pass_def for_yx_product)

lemma grow_stop: "scan_pass weak e = (e', False) \<Longrightarrow> grow weak e = Some e'"
  by (subst grow.simps) simp

lemma grow_again: "scan_pass weak e = (e', True) \<Longrightarrow> grow weak e = grow weak e'"
  by (subst grow.simps) simp

text \<open>The proof rule of the loop: it returns, at a grid where a further pass changes
  nothing, and an invariant of the pass holds of the result.\<close>

lemma grow_rule:
  assumes "rect r c e" and "I e"
    and pass: "\<And>e'. rect r c e' \<Longrightarrow> I e' \<Longrightarrow> I (fst (scan_pass weak e'))"
  shows "\<exists>res. grow weak e = Some res \<and> rect r c res \<and> I res \<and> snd (scan_pass weak res) = False"
  using assms(1,2)
proof (induction "rejected_count r c e" arbitrary: e rule: less_induct)
  case less
  obtain e' ch where sp: "scan_pass weak e = (e', ch)"
    by (cases "scan_pass weak e")
  note m = scan_pass_measure [OF less.prems(1), of weak]
  show ?case
  proof (cases ch)
    case True
    have "rejected_count r c e' < rejected_count r c e"
      using m sp True by simp
    moreover have "rect r c e'"
      using rect_scan_pass [OF less.prems(1), of weak] sp by simp
    moreover have "I e'"
      using pass [OF less.prems] sp by simp
    ultimately have "\<exists>res. grow weak e' = Some res \<and> rect r c res \<and> I res \<and>
        snd (scan_pass weak res) = False"
      by (rule less.hyps)
    moreover have "grow weak e = grow weak e'"
      using sp True by (intro grow_again) simp
    ultimately show ?thesis
      by simp
  next
    case False
    have "e' = e"
      using m sp False by simp
    moreover have "grow weak e = Some e'"
      using sp False by (intro grow_stop) simp
    ultimately show ?thesis
      using less.prems sp False by simp
  qed
qed

lemma accepted_scan_pass: "rect r c e \<Longrightarrow> accepted r c e \<subseteq> accepted r c (fst (scan_pass weak e))"
  by (auto simp: accepted_def scan_pass_keeps)

lemma rect_passes: "rect r c e \<Longrightarrow> rect r c (((\<lambda>e. fst (scan_pass weak e)) ^^ n) e)"
  by (induction n) (simp_all add: rect_scan_pass)

lemma grow_terminates:
  assumes "rect r c e"
  shows "\<exists>res. grow weak e = Some res \<and> rect r c res \<and> accepted r c e \<subseteq> accepted r c res"
proof -
  have "\<exists>res. grow weak e = Some res \<and> rect r c res \<and> accepted r c e \<subseteq> accepted r c res \<and>
          snd (scan_pass weak res) = False"
  proof (rule grow_rule [where I = "\<lambda>e'. accepted r c e \<subseteq> accepted r c e'", OF assms])
    show "accepted r c e \<subseteq> accepted r c e"
      by simp
  next
    fix e'
    assume "rect r c e'" "accepted r c e \<subseteq> accepted r c e'"
    then show "accepted r c e \<subseteq> accepted r c (fst (scan_pass weak e'))"
      using accepted_scan_pass [of r c e' weak] by blast
  qed
  then show ?thesis
    by blast
qed

lemma applyThresholding_grow:
  "applyThresholding s low high =
     grow (snd (classify s (high * maxVal_of s) (low * maxVal_of s)))
          (fst (classify s (high * maxVal_of s) (low * maxVal_of s)))"
  by (simp add: applyThresholding_def Let_def split_beta)

lemma accepted_strong:
  "accepted (rows s) (cols s) (fst (classify s (high * maxVal_of s) lo)) = strong_set s high"
  by (auto simp: accepted_def strong_set_def classify_strong(2) split: if_splits)

lemma weak_255:
  assumes "y < rows s" "x < cols s"
  shows "mat_at (snd (classify s (high * maxVal_of s) (low * maxVal_of s))) y x = 255 \<longleftrightarrow>
         (y, x) \<in> weak_set s low high"
  using assms by (auto simp: weak_set_def classify_weak(2) split: if_splits)

lemma classify_binary:
  "y < rows s \<Longrightarrow> x < cols s \<Longrightarrow>
   mat_at (fst (classify s hi lo)) y x = 0 \<or> mat_at (fst (classify s hi lo)) y x = 255"
  by (simp add: classify_strong(2))

text \<open>What \<open>applyThresholding\<close> returns: the loop ends, the mask has the size of the input,
  holds only 0 and 255, and its accepted set is the strong set grown through the weak
  pixels of the interior.\<close>

lemma applyThresholding_result:
  "\<exists>out. applyThresholding s low high = Some out \<and> rect (rows s) (cols s) out \<and>
     (\<forall>y<rows s. \<forall>x<cols s. mat_at out y x = 0 \<or> mat_at out y x = 255) \<and>
     accepted (rows s) (cols s) out =
       reach (strong_set s high) (weak_set s low high \<inter> interior (rows s) (cols s))"
proof -
  let ?r = "rows s" and ?c = "cols s"
  let ?cl = "classify s (high * maxVal_of s) (low * maxVal_of s)"
  let ?strong = "fst ?cl" and ?weak = "snd ?cl"
  let ?S = "strong_set s high" and ?W = "weak_set s low high \<inter> interior ?r ?c"
  let ?B = "\<lambda>e. \<forall>y<?r. \<forall>x<?c. mat_at e y x = 0 \<or> mat_at e y x = 255"
  let ?I = "\<lambda>e. ?B e \<and> ?S \<subseteq> accepted ?r ?c e \<and> accepted ?r ?c e \<subseteq> reach ?S ?W"
  have rs: "rect ?r ?c ?strong"
    by (rule classify_strong(1))
  have acc: "accepted ?r ?c ?strong = ?S"
    by (rule accepted_strong)
  have closed: "p \<in> reach ?S ?W"
    if q: "q \<in> reach ?S ?W" and a: "adj8 q p" and i: "p \<in> interior ?r ?c"
      and w: "mat_at ?weak (fst p) (snd p) = 255" for p q
  proof -
    have "fst p < ?r" "snd p < ?c"
      using i by (auto simp: interior_def)
    then have "(fst p, snd p) \<in> weak_set s low high"
      using w weak_255 [of "fst p" s "snd p" high low] by simp
    then have "p \<in> ?W"
      using i by simp
    with q a show ?thesis
      by (rule reach.grow_step)
  qed
  have "\<exists>res. grow ?weak ?strong = Some res \<and> rect ?r ?c res \<and> ?I res \<and>
          snd (scan_pass ?weak res) = False"
  proof (rule grow_rule [where I = ?I, OF rs])
    have "?B ?strong"
      using classify_binary [of _ s _ "high * maxVal_of s" "low * maxVal_of s"] by blast
    moreover have "?S \<subseteq> reach ?S ?W"
      by (auto intro: reach.seed)
    ultimately show "?I ?strong"
      unfolding acc by simp
  next
    fix e'
    assume r: "rect ?r ?c e'" and i: "?I e'"
    from i have b: "?B e'" and s1: "?S \<subseteq> accepted ?r ?c e'"
      and s2: "accepted ?r ?c e' \<subseteq> reach ?S ?W"
      by blast+
    have "accepted ?r ?c (fst (scan_pass ?weak e')) \<subseteq> reach ?S ?W"
      using r s2 closed by (rule scan_pass_sound)
    moreover have "?S \<subseteq> accepted ?r ?c (fst (scan_pass ?weak e'))"
      using s1 accepted_scan_pass [OF r, of ?weak] by (rule subset_trans)
    moreover have "?B (fst (scan_pass ?weak e'))"
      using r b by (rule scan_pass_binary)
    ultimately show "?I (fst (scan_pass ?weak e'))"
      by simp
  qed
  then obtain res where g: "grow ?weak ?strong = Some res" and rr: "rect ?r ?c res"
    and i: "?I res" and fixed: "snd (scan_pass ?weak res) = False"
    by blast
  from i have b: "?B res" and s1: "?S \<subseteq> accepted ?r ?c res"
    and s2: "accepted ?r ?c res \<subseteq> reach ?S ?W"
    by blast+
  have "p \<in> accepted ?r ?c res" if "p \<in> reach ?S ?W" for p
    using that
  proof (induction rule: reach.induct)
    case (seed p)
    with s1 show ?case ..
  next
    case (grow_step q p)
    obtain y x where p: "p = (y, x)"
      by (cases p)
    have int: "(y, x) \<in> interior ?r ?c" and w: "(y, x) \<in> weak_set s low high"
      using grow_step.hyps(3) p by auto
    have yx: "y < ?r" "x < ?c" "1 \<le> y" "1 \<le> x"
      using interior_in_grid [OF int] by auto
    have w255: "mat_at ?weak y x = 255"
      using w yx(1,2) weak_255 [of y s x high low] by simp
    have "mat_at res (fst q) (snd q) = 255"
      using grow_step.IH by (cases q) (simp add: accepted_def)
    moreover have "adj8 (y, x) q"
      using adj8_sym [OF grow_step.hyps(2)] p by simp
    ultimately have "accepted_neighbour res y x"
      unfolding accepted_neighbour_adj8 [OF yx(3,4)] by blast
    with scan_pass_fixed [OF rr fixed int] w255 have "mat_at res y x \<noteq> 0"
      by blast
    with b yx(1,2) have "mat_at res y x = 255"
      by blast
    with yx(1,2) p show ?case
      by (simp add: accepted_def)
  qed
  with s2 have "accepted ?r ?c res = reach ?S ?W"
    by blast
  with g rr b show ?thesis
    unfolding applyThresholding_grow by blast
qed

lemma fold_scan_none:
  assumes "\<forall>p\<in>set ps. \<not> (mat_at weak (fst p) (snd p) = 255 \<and> mat_at e (fst p) (snd p) = 0 \<and>
            accepted_neighbour e (fst p) (snd p))"
  shows "fold (\<lambda>p. scan_pixel weak (fst p) (snd p)) ps (e, False) = (e, False)"
  using assms by (induction ps) (auto simp: scan_pixel_eq)

lemma scan_pass_no_weak:
  assumes "rect r c e" "\<forall>y<r. \<forall>x<c. mat_at weak y x \<noteq> 255"
  shows "scan_pass weak e = (e, False)"
  unfolding scan_pass_def for_yx_product
proof (rule fold_scan_none, rule ballI)
  fix p
  assume "p \<in> set (List.product [1 ..< rows e - 1] [1 ..< cols e - 1])"
  then have "(fst p, snd p) \<in> interior r c"
    using scan_pass_indices [OF assms(1), of "fst p" "snd p"] by auto
  then have "fst p < r" "snd p < c"
    by (auto simp: interior_def)
  with assms(2) show "\<not> (mat_at weak (fst p) (snd p) = 255 \<and> mat_at e (fst p) (snd p) = 0 \<and>
            accepted_neighbour e (fst p) (snd p))"
    by simp
qed

lemma maxVal_ge:
  assumes "rect r c s" "y < r" "x < c"
  shows "mat_at s y x \<le> maxVal_of s"
proof -
  have "s ! y \<in> set s" "length (s ! y) = c"
    using assms by (auto simp: rect_def list_all_length)
  moreover have "s ! y ! x \<in> set (s ! y)"
    using \<open>length (s ! y) = c\<close> assms(3) by simp
  ultimately have m: "mat_at s y x \<in> set (concat s)"
    unfolding mat_at_def set_concat by blast
  then obtain v vs where c: "concat s = v # vs"
    by (cases "concat s") auto
  have "maxVal_of s = Max (set (concat s))"
    unfolding maxVal_of_def c using Max.set_eq_fold [of v vs] by simp
  with m show ?thesis
    by simp
qed

lemma reach_subset: "reach S W \<subseteq> S \<union> W"
proof
  fix p assume "p \<in> reach S W"
  then show "p \<in> S \<union> W"
    by (induction rule: reach.induct) auto
qed

section \<open>Facts about the structure tensor and the resolver\<close>

lemma fold_triple_split:
  assumes "\<And>x a b c. body x (a, b, c) = (f x a, g x b, h x c)"
  shows "fold body xs (a, b, c) = (fold f xs a, fold g xs b, fold h xs c)"
  by (induction xs arbitrary: a b c) (simp_all add: assms)

lemma for_yx_full:
  "rect r c (for_yx [0 ..< r] [0 ..< c] (\<lambda>y x s. mat_put s y x (f y x)) (mat_zeros r c))"
  "y < r \<Longrightarrow> x < c \<Longrightarrow>
   mat_at (for_yx [0 ..< r] [0 ..< c] (\<lambda>y x s. mat_put s y x (f y x)) (mat_zeros r c)) y x = f y x"
proof -
  have ys: "distinct [0 ..< r]" "\<forall>y\<in>set [0 ..< r]. y < r"
    and xs: "distinct [0 ..< c]" "\<forall>x\<in>set [0 ..< c]. x < c"
    by auto
  note fill = for_yx_put [OF rect_zeros ys xs, of f]
  show "rect r c (for_yx [0 ..< r] [0 ..< c] (\<lambda>y x s. mat_put s y x (f y x)) (mat_zeros r c))"
    using fill by blast
  show "mat_at (for_yx [0 ..< r] [0 ..< c] (\<lambda>y x s. mat_put s y x (f y x)) (mat_zeros r c)) y x = f y x"
    if "y < r" "x < c"
    using conjunct2 [OF fill] that by simp
qed

lemma calculateGradientMagnitude_at:
  "rect (rows gxx) (cols gxx) (calculateGradientMagnitude gxx gyy gxy)"
  "y < rows gxx \<Longrightarrow> x < cols gxx \<Longrightarrow>
   mat_at (calculateGradientMagnitude gxx gyy gxy) y x =
     sqrt (radicand (mat_at gxx y x) (mat_at gyy y x) (mat_at gxy y x))"
  unfolding calculateGradientMagnitude_def
  by (rule for_yx_full(1), rule for_yx_full(2))

lemma calculateGradientDirection_at:
  "rect (rows gxx) (cols gxx) (calculateGradientDirection gxx gyy gxy)"
  "y < rows gxx \<Longrightarrow> x < cols gxx \<Longrightarrow>
   mat_at (calculateGradientDirection gxx gyy gxy) y x =
     theta_of (mat_at gxx y x) (mat_at gyy y x) (mat_at gxy y x)"
  unfolding calculateGradientDirection_def
  by (rule for_yx_full(1), rule for_yx_full(2))

lemma computeCoefficientsGray_split:
  "computeCoefficientsGray gx gy =
    (for_yx [0 ..< rows gx] [0 ..< cols gx]
       (\<lambda>y x m. mat_put m y x (mat_at gx y x * mat_at gx y x)) (mat_zeros (rows gx) (cols gx)),
     for_yx [0 ..< rows gx] [0 ..< cols gx]
       (\<lambda>y x m. mat_put m y x (mat_at gy y x * mat_at gy y x)) (mat_zeros (rows gx) (cols gx)),
     for_yx [0 ..< rows gx] [0 ..< cols gx]
       (\<lambda>y x m. mat_put m y x (mat_at gx y x * mat_at gy y x)) (mat_zeros (rows gx) (cols gx)))"
  unfolding computeCoefficientsGray_def for_yx_product
  by (rule fold_triple_split) (simp add: Let_def)

lemma computeCoefficientsGray_at:
  assumes "computeCoefficientsGray gx gy = (gxx, gyy, gxy)"
  shows "rect (rows gx) (cols gx) gxx" "rect (rows gx) (cols gx) gyy" "rect (rows gx) (cols gx) gxy"
    and "y < rows gx \<Longrightarrow> x < cols gx \<Longrightarrow> mat_at gxx y x = mat_at gx y x * mat_at gx y x"
    and "y < rows gx \<Longrightarrow> x < cols gx \<Longrightarrow> mat_at gyy y x = mat_at gy y x * mat_at gy y x"
    and "y < rows gx \<Longrightarrow> x < cols gx \<Longrightarrow> mat_at gxy y x = mat_at gx y x * mat_at gy y x"
  using assms unfolding computeCoefficientsGray_split
  by (auto simp: for_yx_full)


lemma put_put:
  "rect r c m \<Longrightarrow> y < r \<Longrightarrow> x < c \<Longrightarrow> mat_put (mat_put m y x v) y x w = mat_put m y x w"
  by (simp add: mat_put_def rect_def)

lemma fold_accumulate_cell:
  assumes "rect r c m" "y < r" "x < c"
  shows "fold (\<lambda>i m. mat_put m y x (mat_at m y x + X i)) js m =
         (if js = [] then m else mat_put m y x (mat_at m y x + sum_list (map X js)))"
  using assms(1)
proof (induction js arbitrary: m)
  case Nil
  show ?case by simp
next
  case (Cons j js)
  let ?m = "mat_put m y x (mat_at m y x + X j)"
  have r: "rect r c ?m"
    using Cons.prems by (rule rect_put)
  have a: "mat_at ?m y x = mat_at m y x + X j"
    using Cons.prems assms(2,3) by (rule at_put_same)
  show ?case
    using Cons.IH [OF r] put_put [OF Cons.prems assms(2,3)] a by (simp add: add.assoc)
qed

lemma fold_cell_local:
  assumes "rect r c s" "distinct ps" "\<forall>p\<in>set ps. fst p < r \<and> snd p < c"
    and step: "\<And>p m. p \<in> set ps \<Longrightarrow> rect r c m \<Longrightarrow>
                 step p m = mat_put m (fst p) (snd p) (F p (mat_at m (fst p) (snd p)))"
  shows "rect r c (fold step ps s) \<and>
         (\<forall>y x. mat_at (fold step ps s) y x =
            (if (y, x) \<in> set ps then F (y, x) (mat_at s y x) else mat_at s y x))"
  using assms
proof (induction ps arbitrary: s)
  case Nil
  then show ?case by simp
next
  case (Cons p ps)
  let ?s = "mat_put s (fst p) (snd p) (F p (mat_at s (fst p) (snd p)))"
  have st: "step p s = ?s"
    using Cons.prems(1) by (intro Cons.prems(4)) simp
  have r: "rect r c ?s"
    using Cons.prems(1) by (rule rect_put)
  have p: "fst p < r" "snd p < c" "p \<notin> set ps" "distinct ps" "\<forall>p\<in>set ps. fst p < r \<and> snd p < c"
    using Cons.prems by auto
  have step': "\<And>q m. q \<in> set ps \<Longrightarrow> rect r c m \<Longrightarrow>
                 step q m = mat_put m (fst q) (snd q) (F q (mat_at m (fst q) (snd q)))"
    using Cons.prems(4) by simp
  note ih = Cons.IH [OF r p(4) p(5) step']
  have "mat_at ?s y x = (if (y, x) = p then F p (mat_at s (fst p) (snd p)) else mat_at s y x)" for y x
    using at_put [OF Cons.prems(1) p(1) p(2), of "F p (mat_at s (fst p) (snd p))" y x]
    by (cases p) auto
  with ih p(3) show ?case
    unfolding fold_simps st by auto
qed

lemma for_yx_accumulate:
  fixes X :: "nat \<Rightarrow> nat \<Rightarrow> nat \<Rightarrow> real"
  shows "rect r c (for_yx [0 ..< r] [0 ..< c]
           (\<lambda>y x. fold (\<lambda>i m. mat_put m y x (mat_at m y x + X i y x)) [0 ..< 3]) (mat_zeros r c))"
    and "y < r \<Longrightarrow> x < c \<Longrightarrow>
         mat_at (for_yx [0 ..< r] [0 ..< c]
           (\<lambda>y x. fold (\<lambda>i m. mat_put m y x (mat_at m y x + X i y x)) [0 ..< 3]) (mat_zeros r c)) y x
         = X 0 y x + X 1 y x + X 2 y x"
proof -
  let ?step = "\<lambda>p. fold (\<lambda>i m. mat_put m (fst p) (snd p) (mat_at m (fst p) (snd p) + X i (fst p) (snd p))) [0 ..< 3]"
  let ?F = "\<lambda>p v. v + sum_list (map (\<lambda>i. X i (fst p) (snd p)) [0 ..< 3])"
  let ?ps = "List.product [0 ..< r] [0 ..< c]"
  have d: "distinct ?ps"
    by (rule distinct_product) simp_all
  have i: "\<forall>p\<in>set ?ps. fst p < r \<and> snd p < c"
    by auto
  have st: "?step p m = mat_put m (fst p) (snd p) (?F p (mat_at m (fst p) (snd p)))"
    if "p \<in> set ?ps" "rect r c m" for p m
  proof -
    have "fst p < r" "snd p < c"
      using that(1) by auto
    from fold_accumulate_cell [OF that(2) this, of "\<lambda>i. X i (fst p) (snd p)" "[0 ..< 3]"]
    show ?thesis by simp
  qed
  note fill = fold_cell_local [where F = ?F and step = ?step, OF rect_zeros d i st]
  have three: "sum_list (map (\<lambda>i. X i y x) [0 ..< 3]) = X 0 y x + X 1 y x + X 2 y x" for y x
  proof -
    have "[0 ..< 3] = [0, 1, 2 :: nat]"
      by (simp add: upt_rec)
    then show ?thesis
      by simp
  qed
  show "rect r c (for_yx [0 ..< r] [0 ..< c]
           (\<lambda>y x. fold (\<lambda>i m. mat_put m y x (mat_at m y x + X i y x)) [0 ..< 3]) (mat_zeros r c))"
    unfolding for_yx_product using fill by blast
  show "mat_at (for_yx [0 ..< r] [0 ..< c]
           (\<lambda>y x. fold (\<lambda>i m. mat_put m y x (mat_at m y x + X i y x)) [0 ..< 3]) (mat_zeros r c)) y x
         = X 0 y x + X 1 y x + X 2 y x"
    if "y < r" "x < c"
    unfolding for_yx_product using conjunct2 [OF fill] that three [of y x]
    by (simp add: at_zeros)
qed

lemma computeCoefficientsColor_split:
  "computeCoefficientsColor gx gy =
    (for_yx [0 ..< rows (gx ! 0)] [0 ..< cols (gx ! 0)]
       (\<lambda>y x. fold (\<lambda>i m. mat_put m y x (mat_at m y x + (mat_at (gx ! i) y x) ^ 2)) [0 ..< 3])
       (mat_zeros (rows (gx ! 0)) (cols (gx ! 0))),
     for_yx [0 ..< rows (gx ! 0)] [0 ..< cols (gx ! 0)]
       (\<lambda>y x. fold (\<lambda>i m. mat_put m y x (mat_at m y x + (mat_at (gy ! i) y x) ^ 2)) [0 ..< 3])
       (mat_zeros (rows (gx ! 0)) (cols (gx ! 0))),
     for_yx [0 ..< rows (gx ! 0)] [0 ..< cols (gx ! 0)]
       (\<lambda>y x. fold (\<lambda>i m. mat_put m y x (mat_at m y x + mat_at (gx ! i) y x * mat_at (gy ! i) y x)) [0 ..< 3])
       (mat_zeros (rows (gx ! 0)) (cols (gx ! 0))))"
  unfolding computeCoefficientsColor_def for_yx_product
  by (rule fold_triple_split, rule fold_triple_split) simp

lemma computeCoefficientsColor_at:
  assumes "computeCoefficientsColor gx gy = (gxx, gyy, gxy)"
  shows "rect (rows (gx ! 0)) (cols (gx ! 0)) gxx"
    and "rect (rows (gx ! 0)) (cols (gx ! 0)) gyy"
    and "rect (rows (gx ! 0)) (cols (gx ! 0)) gxy"
    and "y < rows (gx ! 0) \<Longrightarrow> x < cols (gx ! 0) \<Longrightarrow>
         mat_at gxx y x = (mat_at (gx ! 0) y x)\<^sup>2 + (mat_at (gx ! 1) y x)\<^sup>2 + (mat_at (gx ! 2) y x)\<^sup>2"
    and "y < rows (gx ! 0) \<Longrightarrow> x < cols (gx ! 0) \<Longrightarrow>
         mat_at gyy y x = (mat_at (gy ! 0) y x)\<^sup>2 + (mat_at (gy ! 1) y x)\<^sup>2 + (mat_at (gy ! 2) y x)\<^sup>2"
    and "y < rows (gx ! 0) \<Longrightarrow> x < cols (gx ! 0) \<Longrightarrow>
         mat_at gxy y x = mat_at (gx ! 0) y x * mat_at (gy ! 0) y x +
           mat_at (gx ! 1) y x * mat_at (gy ! 1) y x + mat_at (gx ! 2) y x * mat_at (gy ! 2) y x"
  using assms unfolding computeCoefficientsColor_split
  by (auto simp: for_yx_accumulate)



lemma atan2_range: "- pi < atan2 y x \<and> atan2 y x \<le> pi"
proof -
  have a: "- (pi / 2) < arctan (y / x)" "arctan (y / x) < pi / 2"
    by (rule arctan_lbound, rule arctan_ubound)
  have "arctan (y / x) \<le> 0" if "x < 0" "0 \<le> y"
    using that by (simp add: divide_nonneg_neg)
  moreover have "0 < arctan (y / x)" if "x < 0" "y < 0"
    using that by (simp add: divide_neg_neg)
  ultimately show ?thesis
    using a pi_gt_zero unfolding atan2_def by (auto simp: not_le not_less)
qed

lemma theta_of_range: "- pi \<le> theta_of gxx gyy gxy \<and> theta_of gxx gyy gxy \<le> pi"
  using atan2_range [of "2 * gxy" "gxx - gyy"] pi_gt_zero
  by (auto simp: theta_of_def Let_def)

section \<open>Facts about the pipeline\<close>

lemma rect_ext:
  assumes "rect r c a" "rect r c b" "\<And>y x. y < r \<Longrightarrow> x < c \<Longrightarrow> mat_at a y x = mat_at b y x"
  shows "a = b"
proof (rule nth_equalityI)
  show "length a = length b"
    using assms(1,2) by (simp add: rect_def)
next
  fix y assume y: "y < length a"
  then have yr: "y < r"
    using assms(1) by (simp add: rect_def)
  show "a ! y = b ! y"
  proof (rule nth_equalityI)
    show "length (a ! y) = length (b ! y)"
      using rect_row_length [OF assms(1) yr] rect_row_length [OF assms(2) yr] by simp
  next
    fix x assume "x < length (a ! y)"
    then have "x < c"
      using rect_row_length [OF assms(1) yr] by simp
    from assms(3) [OF yr this] show "a ! y ! x = b ! y ! x"
      by (simp add: mat_at_def)
  qed
qed

lemma rows_zeros [simp]: "rows (mat_zeros r c) = r"
  by (simp add: rows_def mat_zeros_def)

lemma cols_zeros [simp]: "0 < r \<Longrightarrow> cols (mat_zeros r c) = c"
  by (cases r) (simp_all add: cols_def mat_zeros_def)

lemma maxVal_zeros: "maxVal_of (mat_zeros r c) = 0"
proof (cases "concat (mat_zeros r c :: real mat)")
  case Nil
  show ?thesis unfolding maxVal_of_def Nil by simp
next
  case (Cons v vs)
  have "maxVal_of (mat_zeros r c) = Max (set (concat (mat_zeros r c :: real mat)))"
    unfolding maxVal_of_def Cons using Max.set_eq_fold [of v vs] by simp
  moreover have "Max (set (concat (mat_zeros r c :: real mat))) \<in> set (concat (mat_zeros r c :: real mat))"
    using Cons by (intro Max_in) auto
  moreover have "set (concat (mat_zeros r c :: real mat)) \<subseteq> {0}"
    by (auto simp: mat_zeros_def)
  ultimately show ?thesis
    by auto
qed

lemma theta_of_zero: "theta_of 0 0 0 = 0"
  by (simp add: theta_of_def atan2_def)

lemma radicand_zero: "radicand 0 0 0 = 0"
  by (simp add: radicand_def)

lemma coefficients_of_zero_gradients:
  assumes "0 < r"
  shows "computeCoefficientsGray (mat_zeros r c) (mat_zeros r c) =
         (mat_zeros r c, mat_zeros r c, mat_zeros r c)"
proof -
  obtain gxx gyy gxy where c: "computeCoefficientsGray (mat_zeros r c) (mat_zeros r c) = (gxx, gyy, gxy)"
    by (cases "computeCoefficientsGray (mat_zeros r c :: real mat) (mat_zeros r c)") auto
  note a = computeCoefficientsGray_at [OF c]
  have "gxx = mat_zeros r c"
    using a(1) assms by (intro rect_ext [OF _ rect_zeros]) (simp_all add: a(4) at_zeros)
  moreover have "gyy = mat_zeros r c"
    using a(2) assms by (intro rect_ext [OF _ rect_zeros]) (simp_all add: a(5) at_zeros)
  moreover have "gxy = mat_zeros r c"
    using a(3) assms by (intro rect_ext [OF _ rect_zeros]) (simp_all add: a(6) at_zeros)
  ultimately show ?thesis
    using c by simp
qed

lemma resolver_of_zero_tensor:
  assumes "0 < r"
  shows "calculateGradientMagnitude (mat_zeros r c) (mat_zeros r c) (mat_zeros r c) = mat_zeros r c"
    and "calculateGradientDirection (mat_zeros r c) (mat_zeros r c) (mat_zeros r c) = mat_zeros r c"
proof -
  let ?z = "mat_zeros r c :: real mat"
  have "rect r c (calculateGradientMagnitude ?z ?z ?z)"
    using calculateGradientMagnitude_at(1) [of ?z ?z ?z] assms by simp
  then show "calculateGradientMagnitude ?z ?z ?z = ?z"
    using assms
    by (intro rect_ext [OF _ rect_zeros])
       (simp_all add: calculateGradientMagnitude_at(2) at_zeros radicand_zero)
  have "rect r c (calculateGradientDirection ?z ?z ?z)"
    using calculateGradientDirection_at(1) [of ?z ?z ?z] assms by simp
  then show "calculateGradientDirection ?z ?z ?z = ?z"
    using assms
    by (intro rect_ext [OF _ rect_zeros])
       (simp_all add: calculateGradientDirection_at(2) at_zeros theta_of_zero)
qed

lemma suppression_of_zero:
  assumes "0 < r"
  shows "applySuppression \<lparr>magnitude = mat_zeros r c, direction = mat_zeros r c\<rparr> = mat_zeros r c"
proof -
  let ?g = "\<lparr>magnitude = mat_zeros r c, direction = mat_zeros r c\<rparr>"
  have "rect r c (applySuppression ?g)"
    using rect_applySuppression [of ?g] assms by simp
  moreover have "mat_at (applySuppression ?g) y x = mat_at (mat_zeros r c :: real mat) y x"
    if "y < r" "x < c" for y x
  proof -
    have "suppressed_value ?g y x = 0"
      using that by (simp add: suppressed_value_def Let_def split_beta at_zeros)
    then show ?thesis
      using that assms applySuppression_at [of y ?g x] by (simp add: at_zeros)
  qed
  ultimately show ?thesis
    by (intro rect_ext [OF _ rect_zeros])
qed

lemma thresholding_of_zero:
  assumes "0 < r"
  shows "applyThresholding (mat_zeros r c) low high = Some (replicate r (replicate c 255))"
proof -
  let ?z = "mat_zeros r c :: real mat"
  let ?cl = "classify ?z (high * maxVal_of ?z) (low * maxVal_of ?z)"
  have rs: "rect r c (fst ?cl)" and rw: "rect r c (snd ?cl)"
    using classify_strong(1) [of ?z] classify_weak(1) [of ?z] assms by simp_all
  have "rect r c (replicate r (replicate c (255 :: uchar)))"
    by (simp add: rect_def list_all_length)
  with rs have strong: "fst ?cl = replicate r (replicate c 255)"
  proof (rule rect_ext)
    fix y x assume "y < r" "x < c"
    then have "mat_at (fst ?cl) y x = 255"
      using assms by (simp add: classify_strong(2) maxVal_zeros at_zeros)
    moreover have "mat_at (replicate r (replicate c (255 :: uchar))) y x = 255"
      using \<open>y < r\<close> \<open>x < c\<close> by (simp add: mat_at_def)
    ultimately show "mat_at (fst ?cl) y x = mat_at (replicate r (replicate c 255)) y x"
      by simp
  qed
  have "\<forall>y<r. \<forall>x<c. mat_at (snd ?cl) y x \<noteq> 255"
    using assms by (simp add: classify_weak(2) maxVal_zeros at_zeros)
  with rs have "scan_pass (snd ?cl) (fst ?cl) = (fst ?cl, False)"
    by (rule scan_pass_no_weak)
  then have "grow (snd ?cl) (fst ?cl) = Some (fst ?cl)"
    by (rule grow_stop)
  then show ?thesis
    unfolding applyThresholding_grow strong .
qed

lemma rows_replicate [simp]: "rows (replicate r row) = r"
  by (simp add: rows_def)

lemma cols_replicate [simp]: "0 < r \<Longrightarrow> cols (replicate r row) = length row"
  by (cases r) (simp_all add: cols_def)

lemma rows_cols_sobel3: "rows (sobel3 p a b) = rows p \<and> cols (sobel3 p a b) = cols p"
proof (cases p)
  case Nil
  then show ?thesis
    by (simp add: sobel3_def rows_def cols_def)
next
  case (Cons row rest)
  then have pos: "0 < rows p"
    by (simp add: rows_def)
  then have u: "[0 ..< rows p] = 0 # [Suc 0 ..< rows p]"
    by (rule upt_conv_Cons)
  have "rows (sobel3 p a b) = rows p"
    by (simp add: sobel3_def Let_def rows_def)
  moreover have "cols (sobel3 p a b) = cols p"
    unfolding sobel3_def Let_def u by (simp add: cols_def)
  ultimately show ?thesis
    by simp
qed

lemma gradients_dims:
  assumes ne: "img \<noteq> []" and r: "0 < rows (img ! 0)"
    and ch: "if color then length img = 3 else length img = 1"
    and sobel: "\<forall>p a b. rows (Sobel cv p a b) = rows p \<and> cols (Sobel cv p a b) = cols p"
  shows "\<exists>g. computeGradients cv img color = Inr g \<and>
           rect (rows (img ! 0)) (cols (img ! 0)) (magnitude g)"
proof -
  let ?r = "rows (img ! 0)" and ?c = "cols (img ! 0)"
  have mag: "rect ?r ?c (calculateGradientMagnitude gxx gyy gxy)" if "rect ?r ?c gxx"
    for gxx gyy gxy :: "real mat"
    using calculateGradientMagnitude_at(1) [of gxx gyy gxy] rect_rows [OF that] rect_cols [OF that r]
    by simp
  show ?thesis
  proof (cases color)
    case False
    let ?gx = "Sobel cv (img ! 0) 1 0" and ?gy = "Sobel cv (img ! 0) 0 1"
    obtain gxx gyy gxy where c: "computeCoefficientsGray ?gx ?gy = (gxx, gyy, gxy)"
      by (cases "computeCoefficientsGray ?gx ?gy") auto
    have "rect ?r ?c gxx"
      using computeCoefficientsGray_at(1) [OF c] sobel by simp
    then have "rect ?r ?c (calculateGradientMagnitude gxx gyy gxy)"
      by (rule mag)
    then show ?thesis
      using False ch c by (simp add: computeGradients_def computeGrayGradients_def Let_def)
  next
    case True
    let ?gx = "map (\<lambda>i. Sobel cv (img ! i) 1 0) [0 ..< 3]"
    let ?gy = "map (\<lambda>i. Sobel cv (img ! i) 0 1) [0 ..< 3]"
    obtain gxx gyy gxy where c: "computeCoefficientsColor ?gx ?gy = (gxx, gyy, gxy)"
      by (cases "computeCoefficientsColor ?gx ?gy") auto
    have "?gx ! 0 = Sobel cv (img ! 0) 1 0"
      by (simp add: upt_rec)
    then have "rect ?r ?c gxx"
      using computeCoefficientsColor_at(1) [OF c] sobel by simp
    then have "rect ?r ?c (calculateGradientMagnitude gxx gyy gxy)"
      by (rule mag)
    then show ?thesis
      using True ch c by (simp add: computeGradients_def computeColorGradients_def Let_def)
  qed
qed

text \<open>The maximum of a suppressed grid is not negative when the magnitudes are not: the
  premise of the result on the precedence of the strong test.\<close>

lemma maxVal_nonneg:
  assumes "rect r c s" "\<And>y x. y < r \<Longrightarrow> x < c \<Longrightarrow> 0 \<le> mat_at s y x"
  shows "0 \<le> maxVal_of s"
proof (cases "concat s")
  case Nil
  show ?thesis unfolding maxVal_of_def Nil by simp
next
  case (Cons v vs)
  have "maxVal_of s = Max (set (concat s))"
    unfolding maxVal_of_def Cons using Max.set_eq_fold [of v vs] by simp
  moreover have "Max (set (concat s)) \<in> set (concat s)"
    using Cons by (intro Max_in) auto
  ultimately obtain row where row: "row \<in> set s" "maxVal_of s \<in> set row"
    by auto
  then obtain y x where "y < length s" "row = s ! y" "x < length row" "maxVal_of s = row ! x"
    by (metis in_set_conv_nth)
  then have "y < r" "x < c" "maxVal_of s = mat_at s y x"
    using assms(1) by (auto simp: rect_def list_all_length mat_at_def)
  with assms(2) [of y x] show ?thesis
    by simp
qed

lemma suppressed_value_nonneg:
  "0 \<le> mat_at (magnitude g) y x \<Longrightarrow> 0 \<le> suppressed_value g y x"
  by (simp add: suppressed_value_def Let_def split_beta)

lemma maxVal_applySuppression_nonneg:
  assumes "\<And>y x. y < rows (magnitude g) \<Longrightarrow> x < cols (magnitude g) \<Longrightarrow> 0 \<le> mat_at (magnitude g) y x"
  shows "0 \<le> maxVal_of (applySuppression g)"
  using rect_applySuppression
proof (rule maxVal_nonneg)
  fix y x assume "y < rows (magnitude g)" "x < cols (magnitude g)"
  then show "0 \<le> mat_at (applySuppression g) y x"
    using assms [of y x] by (simp add: applySuppression_at suppressed_value_nonneg)
qed








section \<open>Non-maximum suppression: the border ring and the interior rule\<close>

text \<open>
  C5.  For every input of at least 3 by 3 pixels, every pixel of the outermost ring (first
  or last row, first or last column) of the grid returned by \<open>applySuppression\<close> is 0.
\<close>

theorem applySuppression_border_zero:
  assumes "3 \<le> rows (magnitude g)" and "3 \<le> cols (magnitude g)"
    and "y < rows (magnitude g)" and "x < cols (magnitude g)"
    and "y = 0 \<or> x = 0 \<or> y = rows (magnitude g) - 1 \<or> x = cols (magnitude g) - 1"
  shows "mat_at (applySuppression g) y x = 0"
  using assms applySuppression_at [of y g x] by auto

theorem applySuppression_border_zero_witness:
  "3 \<le> rows (magnitude \<lparr>magnitude = [[1, 2, 3], [4, 9, 6], [7, 8, 5]],
                            direction = [[0, 0, 0], [0, 0, 0], [0, 0, 0]]\<rparr>) \<and>
   3 \<le> cols (magnitude \<lparr>magnitude = [[1, 2, 3], [4, 9, 6], [7, 8, 5]],
                            direction = [[0, 0, 0], [0, 0, 0], [0, 0, 0]]\<rparr>) \<and>
   mat_at (applySuppression \<lparr>magnitude = [[1, 2, 3], [4, 9, 6], [7, 8, 5]],
                              direction = [[0, 0, 0], [0, 0, 0], [0, 0, 0]]\<rparr>) 2 1 = 0"
  using applySuppression_border_zero
    [of "\<lparr>magnitude = [[1, 2, 3], [4, 9, 6], [7, 8, 5]],
           direction = [[0, 0, 0], [0, 0, 0], [0, 0, 0]]\<rparr>" 2 1]
  by (simp add: rows_def cols_def)

text \<open>
  C6.  At every interior pixel whose direction lies in \<open>[-\<pi>, \<pi>]\<close> (so that its angle in
  degrees, negatives shifted by 180, lies in \<open>[0, 180]\<close>), the direction falls into one of
  the four sectors of the specification, and \<open>applySuppression\<close> stores the pixel's magnitude
  when it is at least both neighbours that the sector selects, and 0 otherwise.  A pixel
  equal to a neighbour survives.
\<close>

theorem applySuppression_interior:
  assumes "1 \<le> y" and "y + 1 < rows (magnitude g)"
    and "1 \<le> x" and "x + 1 < cols (magnitude g)"
    and "- pi \<le> mat_at (direction g) y x" and "mat_at (direction g) y x \<le> pi"
  shows "spec_suppressed g y x = Some (mat_at (applySuppression g) y x)"
  using assms applySuppression_at [of y g x] suppressed_value_spec [of g y x] by simp

theorem applySuppression_interior_witness:
  "spec_suppressed \<lparr>magnitude = [[1, 2, 3], [9, 9, 6], [7, 8, 5]],
                     direction = [[0, 0, 0], [0, 0, 0], [0, 0, 0]]\<rparr> 1 1 =
   Some (mat_at (applySuppression \<lparr>magnitude = [[1, 2, 3], [9, 9, 6], [7, 8, 5]],
                                    direction = [[0, 0, 0], [0, 0, 0], [0, 0, 0]]\<rparr>) 1 1) \<and>
   spec_suppressed \<lparr>magnitude = [[1, 2, 3], [9, 9, 6], [7, 8, 5]],
                     direction = [[0, 0, 0], [0, 0, 0], [0, 0, 0]]\<rparr> 1 1 = Some 9"
  using applySuppression_interior
    [of 1 "\<lparr>magnitude = [[1, 2, 3], [9, 9, 6], [7, 8, 5]],
             direction = [[0, 0, 0], [0, 0, 0], [0, 0, 0]]\<rparr>" 1]
  by (simp add: rows_def cols_def mat_at_def spec_suppressed_def spec_degrees_def
      spec_sector_def spec_keep_def)

section \<open>Hysteresis: growth, termination and the final accepted set\<close>

text \<open>
  C7.  In the growth phase the accepted-edge set after pass \<open>n + 1\<close> contains the accepted
  set after pass \<open>n\<close>, so no pixel is ever un-accepted; the loop \<open>do ... while (changed)\<close>
  returns on every rectangular grid, with a result that contains the initial accepted set;
  and \<open>applyThresholding\<close> returns on every input.
\<close>

theorem hysteresis_monotone_terminates:
  assumes "rect r c edges"
  shows "accepted r c (((\<lambda>e. fst (scan_pass weak e)) ^^ n) edges)
           \<subseteq> accepted r c (((\<lambda>e. fst (scan_pass weak e)) ^^ Suc n) edges) \<and>
         (\<exists>res. grow weak edges = Some res \<and> accepted r c edges \<subseteq> accepted r c res) \<and>
         (\<exists>out. applyThresholding s low high = Some out)"
proof -
  have "accepted r c (((\<lambda>e. fst (scan_pass weak e)) ^^ n) edges)
           \<subseteq> accepted r c (((\<lambda>e. fst (scan_pass weak e)) ^^ Suc n) edges)"
    using accepted_scan_pass [OF rect_passes [OF assms, where weak = weak and n = n], of weak] by simp
  moreover have "\<exists>res. grow weak edges = Some res \<and> accepted r c edges \<subseteq> accepted r c res"
    using grow_terminates [OF assms, of weak] by blast
  moreover have "\<exists>out. applyThresholding s low high = Some out"
    using applyThresholding_result [of s low high] by blast
  ultimately show ?thesis
    by blast
qed

theorem hysteresis_monotone_terminates_witness:
  "rect 3 4 [[0, 0, 0, 0], [0, 255, 0, 0], [0, 0, 0, 0 :: uchar]] \<and>
   accepted 3 4 (((\<lambda>e. fst (scan_pass [[0, 0, 0, 0], [0, 0, 255, 0], [0, 0, 0, 0]] e)) ^^ 0)
       [[0, 0, 0, 0], [0, 255, 0, 0], [0, 0, 0, 0]])
     \<subseteq> accepted 3 4 (((\<lambda>e. fst (scan_pass [[0, 0, 0, 0], [0, 0, 255, 0], [0, 0, 0, 0]] e)) ^^ Suc 0)
       [[0, 0, 0, 0], [0, 255, 0, 0], [0, 0, 0, 0]]) \<and>
   (\<exists>res. grow [[0, 0, 0, 0], [0, 0, 255, 0], [0, 0, 0, 0]]
              [[0, 0, 0, 0], [0, 255, 0, 0], [0, 0, 0, 0]] = Some res \<and>
          accepted 3 4 [[0, 0, 0, 0], [0, 255, 0, 0], [0, 0, 0, 0]] \<subseteq> accepted 3 4 res) \<and>
   (\<exists>out. applyThresholding [[0, 0, 0, 0], [0, 1, 0.6, 0], [0, 0, 0, 0]] 0.5 0.9 = Some out)"
proof -
  have r: "rect 3 4 [[0, 0, 0, 0], [0, 255, 0, 0], [0, 0, 0, 0 :: uchar]]"
    by (simp add: rect_def)
  show ?thesis
    using r hysteresis_monotone_terminates [OF r,
        where weak = "[[0, 0, 0, 0], [0, 0, 255, 0], [0, 0, 0, 0]]" and n = 0
          and s = "[[0, 0, 0, 0], [0, 1, 0.6, 0], [0, 0, 0, 0]]" and low = "0.5" and high = "0.9"]
    by blast
qed

text \<open>
  C8, as stated, fails: the scan visits interior pixels only, so a weak pixel of the border
  ring is never accepted, although it is 8-adjacent to a strong pixel.  On the 3 by 3 grid
  with the single non-zero pixel 1 in the centre, \<open>lowThreshold = 0\<close> and
  \<open>highThreshold = 0.5\<close>, the corner \<open>(0, 0)\<close> is weak and adjacent to the strong centre,
  hence reachable, and the mask leaves it at 0.
\<close>

theorem hysteresis_reach_counterexample:
  "applyThresholding [[0, 0, 0], [0, 1, 0], [0, 0, 0]] 0 0.5 =
     Some [[0, 0, 0], [0, 255, 0], [0, 0, 0]] \<and>
   (0, 0) \<in> reach (strong_set [[0, 0, 0], [0, 1, 0], [0, 0, 0]] 0.5)
                   (weak_set [[0, 0, 0], [0, 1, 0], [0, 0, 0]] 0 0.5) \<and>
   (0, 0) \<notin> accepted 3 3 [[0, 0, 0], [0, 255, 0], [0, 0, 0]]"
proof -
  let ?G = "[[0, 0, 0], [0, 1, 0], [0, 0, 0]] :: real mat"
  have m: "maxVal_of ?G = 1"
    by code_simp
  have cl: "classify ?G (0.5 * 1) (0 * 1) =
        ([[0, 0, 0], [0, 255, 0], [0, 0, 0]], [[255, 255, 255], [255, 0, 255], [255, 255, 255]])"
    by code_simp
  have sp: "scan_pass [[255, 255, 255], [255, 0, 255], [255, 255, 255]]
              [[0, 0, 0], [0, 255, 0], [0, 0, 0]] = ([[0, 0, 0], [0, 255, 0], [0, 0, 0]], False)"
    by code_simp
  have 1: "applyThresholding ?G 0 0.5 = Some [[0, 0, 0], [0, 255, 0], [0, 0, 0]]"
    unfolding applyThresholding_grow m cl using grow_stop [OF sp] by simp
  have "(1, 1) \<in> strong_set ?G 0.5"
    unfolding strong_set_def m by (simp add: rows_def cols_def mat_at_def)
  then have "(1, 1) \<in> reach (strong_set ?G 0.5) (weak_set ?G 0 0.5)"
    by (rule reach.seed)
  moreover have "adj8 (1, 1) (0, 0)"
    by (simp add: adj8_def)
  moreover have "(0, 0) \<in> weak_set ?G 0 0.5"
    unfolding weak_set_def m by (simp add: rows_def cols_def mat_at_def)
  ultimately have 2: "(0, 0) \<in> reach (strong_set ?G 0.5) (weak_set ?G 0 0.5)"
    by (rule reach.grow_step)
  have 3: "(0, 0) \<notin> accepted 3 3 [[0, 0, 0], [0, 255, 0], [0, 0, 0]]"
    by (simp add: accepted_def mat_at_def)
  from 1 2 3 show ?thesis
    by blast
qed

text \<open>
  C8, amended.  \<open>applyThresholding\<close> returns, and the accepted set of its mask is the set
  grown from the strong pixels by 8-adjacency through the weak pixels of the interior (the
  pixels outside the outermost ring).  The right-hand side names no scan order: every
  search from the strong pixels through the weak interior pixels computes the same set.
\<close>

theorem hysteresis_reach_interior:
  "\<exists>out. applyThresholding s low high = Some out \<and>
     accepted (rows s) (cols s) out =
       reach (strong_set s high) (weak_set s low high \<inter> interior (rows s) (cols s))"
  using applyThresholding_result [of s low high] by blast

theorem hysteresis_reach_interior_witness:
  "applyThresholding [[0, 0, 0, 0], [0, 1, 0.6, 0], [0, 0, 0, 0]] 0.5 0.9 =
     Some [[0, 0, 0, 0], [0, 255, 255, 0], [0, 0, 0, 0]] \<and>
   accepted (rows [[0, 0, 0, 0], [0, 1, 0.6, 0], [0, 0, 0, 0 :: real]])
            (cols [[0, 0, 0, 0], [0, 1, 0.6, 0], [0, 0, 0, 0 :: real]])
            [[0, 0, 0, 0], [0, 255, 255, 0], [0, 0, 0, 0]] =
     reach (strong_set [[0, 0, 0, 0], [0, 1, 0.6, 0], [0, 0, 0, 0]] 0.9)
           (weak_set [[0, 0, 0, 0], [0, 1, 0.6, 0], [0, 0, 0, 0]] 0.5 0.9 \<inter>
            interior (rows [[0, 0, 0, 0], [0, 1, 0.6, 0], [0, 0, 0, 0 :: real]])
                     (cols [[0, 0, 0, 0], [0, 1, 0.6, 0], [0, 0, 0, 0 :: real]]))"
proof -
  let ?G = "[[0, 0, 0, 0], [0, 1, 0.6, 0], [0, 0, 0, 0]] :: real mat"
  let ?W = "[[0, 0, 0, 0], [0, 0, 255, 0], [0, 0, 0, 0]] :: uchar mat"
  have m: "maxVal_of ?G = 1"
    by code_simp
  have cl: "classify ?G (0.9 * 1) (0.5 * 1) = ([[0, 0, 0, 0], [0, 255, 0, 0], [0, 0, 0, 0]], ?W)"
    by code_simp
  have sp1: "scan_pass ?W [[0, 0, 0, 0], [0, 255, 0, 0], [0, 0, 0, 0]] =
      ([[0, 0, 0, 0], [0, 255, 255, 0], [0, 0, 0, 0]], True)"
    by code_simp
  have sp2: "scan_pass ?W [[0, 0, 0, 0], [0, 255, 255, 0], [0, 0, 0, 0]] =
      ([[0, 0, 0, 0], [0, 255, 255, 0], [0, 0, 0, 0]], False)"
    by code_simp
  have a: "applyThresholding ?G 0.5 0.9 = Some [[0, 0, 0, 0], [0, 255, 255, 0], [0, 0, 0, 0]]"
    unfolding applyThresholding_grow m cl using grow_again [OF sp1] grow_stop [OF sp2] by simp
  from hysteresis_reach_interior [of ?G "0.5" "0.9"] a show ?thesis
    by auto
qed

text \<open>
  C10.  The strong test comes first: the pixels classified strong are exactly the pixels
  with \<open>value \<ge> highThreshold * M\<close>, whatever \<open>lowThreshold\<close> is.  When
  \<open>lowThreshold > highThreshold\<close>, on a grid whose maximum \<open>M\<close> is not negative (suppressed
  magnitudes never are), the weak set is empty, the grid \<open>weak\<close> holds no 255, the loop
  returns the strong grid unchanged, and the accepted set of the mask is exactly the set of
  pixels with \<open>value \<ge> highThreshold * M\<close>.
\<close>

theorem strong_precedence:
  "accepted (rows s) (cols s) (fst (classify s (high * maxVal_of s) (low * maxVal_of s)))
     = strong_set s high \<and>
   (0 \<le> maxVal_of s \<and> high < low \<longrightarrow>
      weak_set s low high = {} \<and>
      accepted (rows s) (cols s) (snd (classify s (high * maxVal_of s) (low * maxVal_of s))) = {} \<and>
      applyThresholding s low high
        = Some (fst (classify s (high * maxVal_of s) (low * maxVal_of s))) \<and>
      (\<forall>out. applyThresholding s low high = Some out \<longrightarrow>
         accepted (rows s) (cols s) out = strong_set s high))"
proof -
  let ?cl = "classify s (high * maxVal_of s) (low * maxVal_of s)"
  have 1: "accepted (rows s) (cols s) (fst ?cl) = strong_set s high"
    by (rule accepted_strong)
  have 2: "weak_set s low high = {} \<and> accepted (rows s) (cols s) (snd ?cl) = {} \<and>
      applyThresholding s low high = Some (fst ?cl) \<and>
      (\<forall>out. applyThresholding s low high = Some out \<longrightarrow>
         accepted (rows s) (cols s) out = strong_set s high)"
    if m: "0 \<le> maxVal_of s" and lh: "high < low"
  proof -
    have "high * maxVal_of s \<le> low * maxVal_of s"
      using m lh by (simp add: mult_right_mono)
    then have w: "weak_set s low high = {}"
      by (auto simp: weak_set_def)
    have nw: "\<forall>y<rows s. \<forall>x<cols s. mat_at (snd ?cl) y x \<noteq> 255"
      using w weak_255 [of _ s _ high low] by blast
    then have a: "accepted (rows s) (cols s) (snd ?cl) = {}"
      by (auto simp: accepted_def)
    have "scan_pass (snd ?cl) (fst ?cl) = (fst ?cl, False)"
      using classify_strong(1) nw by (rule scan_pass_no_weak)
    then have g: "applyThresholding s low high = Some (fst ?cl)"
      unfolding applyThresholding_grow by (rule grow_stop)
    with w a 1 show ?thesis
      by simp
  qed
  from 1 2 show ?thesis
    by blast
qed

theorem strong_precedence_witness:
  "0 \<le> maxVal_of [[0, 0, 0, 0], [0, 1, 0.6, 0], [0, 0, 0, 0]] \<and> (0.5 :: real) < 0.9 \<and>
   applyThresholding [[0, 0, 0, 0], [0, 1, 0.6, 0], [0, 0, 0, 0]] 0.9 0.5 =
     Some [[0, 0, 0, 0], [0, 255, 255, 0], [0, 0, 0, 0]] \<and>
   accepted 3 4 [[0, 0, 0, 0], [0, 255, 255, 0], [0, 0, 0, 0]] =
     strong_set [[0, 0, 0, 0], [0, 1, 0.6, 0], [0, 0, 0, 0]] 0.5"
proof -
  let ?G = "[[0, 0, 0, 0], [0, 1, 0.6, 0], [0, 0, 0, 0]] :: real mat"
  have m: "maxVal_of ?G = 1"
    by code_simp
  have cl: "classify ?G (0.5 * 1) (0.9 * 1) =
        ([[0, 0, 0, 0], [0, 255, 255, 0], [0, 0, 0, 0]], [[0, 0, 0, 0], [0, 0, 0, 0], [0, 0, 0, 0]])"
    by code_simp
  have d: "rows ?G = 3" "cols ?G = 4"
    by (simp_all add: rows_def cols_def)
  show ?thesis
    using strong_precedence [of ?G "0.5" "0.9"] unfolding m cl d by simp
qed

text \<open>
  C2, as stated, fails: the strong test is made before the weak test, so with
  \<open>lowThreshold = 1\<close> and \<open>highThreshold = 0.5\<close> the pixel of value 0.6 is strong and in the
  mask, while the global maximum is 1.
\<close>

theorem low_ratio_one_counterexample:
  "applyThresholding [[0, 0, 0, 0], [0, 1, 0.6, 0], [0, 0, 0, 0]] 1 0.5 =
     Some [[0, 0, 0, 0], [0, 255, 255, 0], [0, 0, 0, 0]] \<and>
   mat_at [[0, 0, 0, 0], [0, 255, 255, 0], [0, 0, 0, 0 :: uchar]] 1 2 = 255 \<and>
   mat_at [[0, 0, 0, 0], [0, 1, 0.6, 0], [0, 0, 0, 0 :: real]] 1 2 \<noteq>
     maxVal_of [[0, 0, 0, 0], [0, 1, 0.6, 0], [0, 0, 0, 0]]"
proof -
  let ?G = "[[0, 0, 0, 0], [0, 1, 0.6, 0], [0, 0, 0, 0]] :: real mat"
  have m: "maxVal_of ?G = 1"
    by code_simp
  have cl: "classify ?G (0.5 * 1) (1 * 1) =
        ([[0, 0, 0, 0], [0, 255, 255, 0], [0, 0, 0, 0]], [[0, 0, 0, 0], [0, 0, 0, 0], [0, 0, 0, 0]])"
    by code_simp
  have sp: "scan_pass [[0, 0, 0, 0], [0, 0, 0, 0], [0, 0, 0, 0]]
              [[0, 0, 0, 0], [0, 255, 255, 0], [0, 0, 0, 0]] =
            ([[0, 0, 0, 0], [0, 255, 255, 0], [0, 0, 0, 0]], False)"
    by code_simp
  have "applyThresholding ?G 1 0.5 = Some [[0, 0, 0, 0], [0, 255, 255, 0], [0, 0, 0, 0]]"
    unfolding applyThresholding_grow m cl using grow_stop [OF sp] by simp
  then show ?thesis
    unfolding m by (simp add: mat_at_def)
qed

text \<open>
  C2, amended.  With \<open>lowThreshold = 1\<close>, every pixel of the output mask either has a
  suppressed magnitude equal to the global maximum or is strong
  (\<open>value \<ge> highThreshold * M\<close>); when \<open>highThreshold = 1\<close> as well, only pixels whose
  magnitude equals the global maximum appear in the mask.
\<close>

theorem low_ratio_one:
  assumes "rect (rows s) (cols s) s" and "y < rows s" and "x < cols s"
    and "applyThresholding s 1 high = Some edges" and "mat_at edges y x = 255"
  shows "(mat_at s y x = maxVal_of s \<or> mat_at s y x \<ge> high * maxVal_of s) \<and>
         (high = 1 \<longrightarrow> mat_at s y x = maxVal_of s)"
proof -
  have le: "mat_at s y x \<le> maxVal_of s"
    using assms(1,2,3) by (rule maxVal_ge)
  have "(y, x) \<in> accepted (rows s) (cols s) edges"
    using assms(2,3,5) by (simp add: accepted_def)
  moreover have "accepted (rows s) (cols s) edges =
      reach (strong_set s high) (weak_set s 1 high \<inter> interior (rows s) (cols s))"
    using applyThresholding_result [of s 1 high] assms(4) by auto
  ultimately have "(y, x) \<in> strong_set s high \<union> (weak_set s 1 high \<inter> interior (rows s) (cols s))"
    using reach_subset by blast
  then have "mat_at s y x \<ge> high * maxVal_of s \<or> mat_at s y x \<ge> maxVal_of s"
    by (auto simp: strong_set_def weak_set_def)
  with le show ?thesis
    by auto
qed

theorem low_ratio_one_witness:
  "rect (rows [[0, 0, 0, 0], [0, 1, 0.6, 0], [0, 0, 0, 0 :: real]])
        (cols [[0, 0, 0, 0], [0, 1, 0.6, 0], [0, 0, 0, 0 :: real]])
        [[0, 0, 0, 0], [0, 1, 0.6, 0], [0, 0, 0, 0 :: real]] \<and>
   applyThresholding [[0, 0, 0, 0], [0, 1, 0.6, 0], [0, 0, 0, 0]] 1 1 =
     Some [[0, 0, 0, 0], [0, 255, 0, 0], [0, 0, 0, 0]] \<and>
   mat_at [[0, 0, 0, 0], [0, 255, 0, 0], [0, 0, 0, 0 :: uchar]] 1 1 = 255 \<and>
   mat_at [[0, 0, 0, 0], [0, 1, 0.6, 0], [0, 0, 0, 0 :: real]] 1 1 =
     maxVal_of [[0, 0, 0, 0], [0, 1, 0.6, 0], [0, 0, 0, 0]]"
proof -
  let ?G = "[[0, 0, 0, 0], [0, 1, 0.6, 0], [0, 0, 0, 0]] :: real mat"
  let ?M = "[[0, 0, 0, 0], [0, 255, 0, 0], [0, 0, 0, 0]] :: uchar mat"
  have m: "maxVal_of ?G = 1"
    by code_simp
  have cl: "classify ?G (1 * 1) (1 * 1) = (?M, [[0, 0, 0, 0], [0, 0, 0, 0], [0, 0, 0, 0]])"
    by code_simp
  have sp: "scan_pass [[0, 0, 0, 0], [0, 0, 0, 0], [0, 0, 0, 0]] ?M = (?M, False)"
    by code_simp
  have a: "applyThresholding ?G 1 1 = Some ?M"
    unfolding applyThresholding_grow m cl using grow_stop [OF sp] by simp
  have r: "rect (rows ?G) (cols ?G) ?G"
    by (simp add: rect_def rows_def cols_def)
  have y: "1 < rows ?G" and x: "1 < cols ?G"
    by (simp_all add: rows_def cols_def)
  have v: "mat_at ?M 1 1 = 255"
    by (simp add: mat_at_def)
  from low_ratio_one [OF r y x a v] r a v show ?thesis
    by simp
qed

section \<open>The magnitude and direction resolver\<close>




text \<open>
  C4.  At every pixel the direction grid holds \<open>\<pi>/4\<close> when \<open>gxx - gyy < 0\<close> and
  \<open>0.5 * atan2(2 * gxy, gxx - gyy)\<close> otherwise; the magnitude grid holds the square root of
  \<open>0.5 * ((gxx + gyy) + (gxx - gyy) * cos 2\<theta> + 2 * gxy * sin 2\<theta>)\<close> at the \<open>\<theta>\<close> that the
  direction grid holds; and wherever \<open>gyy > gxx\<close> the direction is \<open>\<pi>/4\<close>.
\<close>

theorem resolver_formula:
  assumes "y < rows gxx" and "x < cols gxx"
  shows "mat_at (calculateGradientDirection gxx gyy gxy) y x =
           (if mat_at gxx y x - mat_at gyy y x < 0 then pi / 4
            else 0.5 * atan2 (2 * mat_at gxy y x) (mat_at gxx y x - mat_at gyy y x)) \<and>
         mat_at (calculateGradientMagnitude gxx gyy gxy) y x =
           sqrt (0.5 * ((mat_at gxx y x + mat_at gyy y x) +
             (mat_at gxx y x - mat_at gyy y x) *
               cos (2 * mat_at (calculateGradientDirection gxx gyy gxy) y x) +
             2 * mat_at gxy y x * sin (2 * mat_at (calculateGradientDirection gxx gyy gxy) y x))) \<and>
         (mat_at gyy y x > mat_at gxx y x \<longrightarrow>
            mat_at (calculateGradientDirection gxx gyy gxy) y x = pi / 4)"
  using calculateGradientDirection_at(2) [OF assms, of gyy gxy]
    calculateGradientMagnitude_at(2) [OF assms, of gyy gxy]
  by (simp add: theta_of_def radicand_def Let_def)

theorem resolver_formula_witness:
  "0 < rows [[1 :: real]] \<and> 0 < cols [[1 :: real]] \<and>
   mat_at (calculateGradientDirection [[1]] [[4]] [[- 2]]) 0 0 = pi / 4 \<and>
   mat_at (calculateGradientMagnitude [[1]] [[4]] [[- 2]]) 0 0 = sqrt (1 / 2)"
proof -
  have d: "0 < rows [[1 :: real]]" "0 < cols [[1 :: real]]"
    by (simp_all add: rows_def cols_def)
  let ?dir = "mat_at (calculateGradientDirection [[1]] [[4]] [[- 2]]) 0 0"
  note f = resolver_formula [OF d, of "[[4]]" "[[- 2]]"]
  have v: "mat_at [[1 :: real]] 0 0 = 1" "mat_at [[4 :: real]] 0 0 = 4"
    "mat_at [[- 2 :: real]] 0 0 = - 2"
    by (simp_all add: mat_at_def)
  have dir: "?dir = pi / 4"
    using conjunct1 [OF f] unfolding v by simp
  have "mat_at (calculateGradientMagnitude [[1]] [[4]] [[- 2]]) 0 0 =
        sqrt (0.5 * ((1 + 4) + (1 - 4) * cos (2 * (pi / 4)) + 2 * (- 2) * sin (2 * (pi / 4))))"
    using conjunct1 [OF conjunct2 [OF f]] unfolding v dir .
  then have "mat_at (calculateGradientMagnitude [[1]] [[4]] [[- 2]]) 0 0 = sqrt (1 / 2)"
    by simp
  with d dir show ?thesis
    by blast
qed

section \<open>The pipeline: the shape of the mask and the uniform image\<close>

text \<open>
  C9.  For a non-empty source, a single plane in grayscale mode or three planes in colour
  mode, and primitives that return grids of the size of their input, \<open>process\<close> returns a
  single grid with the rows and columns of the source, and each of its pixels is 0 (not
  an edge) or 255 (edge).
\<close>

theorem process_mask:
  assumes "source params \<noteq> []"
    and "0 < rows (source params ! 0)" and "0 < cols (source params ! 0)"
    and "if isColor params then length (source params) = 3 else length (source params) = 1"
    and "\<forall>p k s. rows (GaussianBlur cv p k s) = rows p \<and> cols (GaussianBlur cv p k s) = cols p"
    and "\<forall>p a b. rows (Sobel cv p a b) = rows p \<and> cols (Sobel cv p a b) = cols p"
  shows "\<exists>edges. process cv params = Some (Inr edges) \<and>
           rows edges = rows (source params ! 0) \<and> cols edges = cols (source params ! 0) \<and>
           rect (rows (source params ! 0)) (cols (source params ! 0)) edges \<and>
           (\<forall>y<rows (source params ! 0). \<forall>x<cols (source params ! 0).
              mat_at edges y x = 0 \<or> mat_at edges y x = 255)"
proof -
  let ?r = "rows (source params ! 0)" and ?c = "cols (source params ! 0)"
  let ?b = "applyGaussianBlur cv (source params) (sigma params)"
  have b0: "?b ! 0 = GaussianBlur cv (source params ! 0)
      (calculateGaussianKernelSize (sigma params)) (sigma params)"
    using assms(1) by (simp add: applyGaussianBlur_def Let_def)
  have bd: "rows (?b ! 0) = ?r" "cols (?b ! 0) = ?c"
    unfolding b0 using assms(5) by simp_all
  have bl: "?b \<noteq> []" "length ?b = length (source params)"
    using assms(1) by (simp_all add: applyGaussianBlur_def Let_def)
  have "\<exists>g. computeGradients cv ?b (isColor params) = Inr g \<and>
           rect (rows (?b ! 0)) (cols (?b ! 0)) (magnitude g)"
    using bl(1) _ _ assms(6)
  proof (rule gradients_dims)
    show "0 < rows (?b ! 0)"
      using assms(2) bd by simp
    show "if isColor params then length ?b = 3 else length ?b = 1"
      using assms(4) bl(2) by simp
  qed
  then obtain g where g: "computeGradients cv ?b (isColor params) = Inr g"
    and m: "rect ?r ?c (magnitude g)"
    unfolding bd by blast
  let ?s = "applySuppression g"
  have "rect ?r ?c ?s"
    using rect_applySuppression [of g] rect_rows [OF m] rect_cols [OF m assms(2)] by simp
  then have sd: "rows ?s = ?r" "cols ?s = ?c"
    using assms(2) by (simp_all add: rect_rows rect_cols)
  obtain edges where e: "applyThresholding ?s (lowThreshold params) (highThreshold params) = Some edges"
    and re: "rect ?r ?c edges"
    and bin: "\<forall>y<?r. \<forall>x<?c. mat_at edges y x = 0 \<or> mat_at edges y x = 255"
    using applyThresholding_result [of ?s "lowThreshold params" "highThreshold params"]
    unfolding sd by blast
  have "process cv params = Some (Inr edges)"
    using assms(1,2,3) g e by (simp add: process_def Let_def)
  moreover have "rows edges = ?r" "cols edges = ?c"
    using re assms(2) by (simp_all add: rect_rows rect_cols)
  ultimately show ?thesis
    using re bin by blast
qed

theorem process_mask_witness:
  "source \<lparr>source = [[[0, 0, 255], [0, 0, 255], [0, 0, 255]]], sigma = 1.4, lowThreshold = 0.05,
            highThreshold = 0.15, isColor = False\<rparr> \<noteq> [] \<and>
   (\<forall>p k s. rows (GaussianBlur reference_cv p k s) = rows p \<and>
             cols (GaussianBlur reference_cv p k s) = cols p) \<and>
   (\<forall>p a b. rows (Sobel reference_cv p a b) = rows p \<and> cols (Sobel reference_cv p a b) = cols p) \<and>
   (\<exists>edges. process reference_cv
        \<lparr>source = [[[0, 0, 255], [0, 0, 255], [0, 0, 255]]], sigma = 1.4, lowThreshold = 0.05,
         highThreshold = 0.15, isColor = False\<rparr> = Some (Inr edges) \<and>
      rows edges = 3 \<and> cols edges = 3 \<and>
      (\<forall>y<3. \<forall>x<3. mat_at edges y x = 0 \<or> mat_at edges y x = 255))"
proof -
  let ?p = "\<lparr>source = [[[0, 0, 255], [0, 0, 255], [0, 0, 255]]], sigma = 1.4, lowThreshold = 0.05,
            highThreshold = 0.15, isColor = False\<rparr>"
  have 1: "source ?p \<noteq> []" by simp
  have 2: "0 < rows (source ?p ! 0)" and 3: "0 < cols (source ?p ! 0)"
    by (simp_all add: rows_def cols_def)
  have 4: "if isColor ?p then length (source ?p) = 3 else length (source ?p) = 1"
    by simp
  have 5: "\<forall>p k s. rows (GaussianBlur reference_cv p k s) = rows p \<and>
             cols (GaussianBlur reference_cv p k s) = cols p"
    by (simp add: reference_cv_def)
  have 6: "\<forall>p a b. rows (Sobel reference_cv p a b) = rows p \<and> cols (Sobel reference_cv p a b) = cols p"
    by (simp add: reference_cv_def rows_cols_sobel3)
  have d: "rows (source ?p ! 0) = 3" "cols (source ?p ! 0) = 3"
    by (simp_all add: rows_def cols_def)
  from process_mask [OF 1 2 3 4 5 6] 1 5 6 show ?thesis
    unfolding d by blast
qed

text \<open>
  C1.  On a 5 by 5 grayscale image with all pixels equal, whose two Sobel derivatives
  after the blur are zero everywhere, the gradient magnitude and direction are zero
  everywhere and the suppressed grid is zero everywhere; but the maximum is then 0, both
  thresholds are 0, every pixel passes the test \<open>val >= highThr\<close>, and \<open>process\<close> returns
  the mask in which every pixel is 255: an edge.
\<close>

theorem uniform_image_all_edges:
  assumes "Sobel cv (GaussianBlur cv (replicate 5 (replicate 5 v))
             (calculateGaussianKernelSize sg) sg) 1 0 = mat_zeros 5 5"
    and "Sobel cv (GaussianBlur cv (replicate 5 (replicate 5 v))
             (calculateGaussianKernelSize sg) sg) 0 1 = mat_zeros 5 5"
  shows "computeGradients cv (applyGaussianBlur cv [replicate 5 (replicate 5 v)] sg) False =
           Inr \<lparr>magnitude = mat_zeros 5 5, direction = mat_zeros 5 5\<rparr> \<and>
         applySuppression \<lparr>magnitude = mat_zeros 5 5, direction = mat_zeros 5 5\<rparr> = mat_zeros 5 5 \<and>
         process cv \<lparr>source = [replicate 5 (replicate 5 v)], sigma = sg, lowThreshold = low,
                     highThreshold = high, isColor = False\<rparr> =
           Some (Inr (replicate 5 (replicate 5 255)))"
proof -
  let ?z = "mat_zeros 5 5 :: real mat"
  let ?g = "\<lparr>magnitude = ?z, direction = ?z\<rparr>"
  have p: "(0 :: nat) < 5" by simp
  have g: "computeGradients cv (applyGaussianBlur cv [replicate 5 (replicate 5 v)] sg) False = Inr ?g"
    using assms coefficients_of_zero_gradients [OF p, of 5] resolver_of_zero_tensor [OF p, of 5]
    by (simp add: computeGradients_def computeGrayGradients_def applyGaussianBlur_def Let_def)
  have s: "applySuppression ?g = ?z"
    using p by (rule suppression_of_zero)
  have t: "applyThresholding ?z low high = Some (replicate 5 (replicate 5 255))"
    using p by (rule thresholding_of_zero)
  have "process cv \<lparr>source = [replicate 5 (replicate 5 v)], sigma = sg, lowThreshold = low,
                     highThreshold = high, isColor = False\<rparr> =
           Some (Inr (replicate 5 (replicate 5 255)))"
    using g s t by (simp add: process_def Let_def)
  with g s show ?thesis
    by blast
qed

theorem uniform_image_all_edges_witness:
  "Sobel reference_cv (GaussianBlur reference_cv (replicate 5 (replicate 5 7))
       (calculateGaussianKernelSize 1.4) 1.4) 1 0 = mat_zeros 5 5 \<and>
   Sobel reference_cv (GaussianBlur reference_cv (replicate 5 (replicate 5 7))
       (calculateGaussianKernelSize 1.4) 1.4) 0 1 = mat_zeros 5 5 \<and>
   process reference_cv \<lparr>source = [replicate 5 (replicate 5 7)], sigma = 1.4, lowThreshold = 0.05,
       highThreshold = 0.15, isColor = False\<rparr> = Some (Inr (replicate 5 (replicate 5 255)))"
proof -
  have x: "sobel3 (replicate 5 (replicate 5 7)) 1 0 = mat_zeros 5 5"
    by code_simp
  have y: "sobel3 (replicate 5 (replicate 5 7)) 0 1 = mat_zeros 5 5"
    by code_simp
  have 1: "Sobel reference_cv (GaussianBlur reference_cv (replicate 5 (replicate 5 7))
       (calculateGaussianKernelSize 1.4) 1.4) 1 0 = mat_zeros 5 5"
    using x by (simp add: reference_cv_def)
  have 2: "Sobel reference_cv (GaussianBlur reference_cv (replicate 5 (replicate 5 7))
       (calculateGaussianKernelSize 1.4) 1.4) 0 1 = mat_zeros 5 5"
    using y by (simp add: reference_cv_def)
  from uniform_image_all_edges [OF 1 2, of "0.05" "0.15"] 1 2 show ?thesis
    by blast
qed

end
